theory Spec2Isabelle
  imports Complex_Main
begin

section \<open>Grover search circuit construction (src/python.py)\<close>

subsection \<open>Errors, gates and circuits\<close>

text \<open>
  The Python exceptions the construction code can raise by itself: \<open>IndexError\<close> from
  indexing the register (\<open>qubits[qubit]\<close>, \<open>qubits[-1]\<close>) and \<open>OverflowError\<close> from
  converting \<open>2**n_qubits\<close> to a float inside \<open>math.sqrt\<close>.
\<close>

datatype error = IndexError | OverflowError

text \<open>
  The unitary gates the source appends (\<open>circuit.x\<close>, \<open>circuit.h\<close>, \<open>circuit.mcx\<close>) and the
  instructions a circuit stores: a gate or a measurement of a quantum position into a
  classical slot (\<open>qc.measure\<close>).
\<close>

datatype gate = X nat | H nat | MCX "nat list" nat

datatype instruction = Gate gate | Measure nat nat

record circuit =
  num_qubits :: nat
  num_clbits :: nat
  data :: "instruction list"

text \<open>
  The circuit class is the external library's. Its methods are modelled as what the source
  relies on: each call appends instructions at the end of the circuit and changes nothing
  else. The library's own argument checks are not part of src/ and are not modelled.
\<close>

definition QuantumCircuit :: "nat \<Rightarrow> nat \<Rightarrow> circuit" where
  "QuantumCircuit n m = \<lparr>num_qubits = n, num_clbits = m, data = []\<rparr>"

definition append_gates :: "circuit \<Rightarrow> gate list \<Rightarrow> circuit" where
  "append_gates c gs = c\<lparr>data := data c @ map Gate gs\<rparr>"

text \<open>\<open>circuit.x(q)\<close> and \<open>circuit.h(q)\<close> with a single position.\<close>

definition x :: "circuit \<Rightarrow> nat \<Rightarrow> circuit" where
  "x c q = append_gates c [X q]"

definition h :: "circuit \<Rightarrow> nat \<Rightarrow> circuit" where
  "h c q = append_gates c [H q]"

text \<open>\<open>circuit.x(qubits)\<close> and \<open>circuit.h(qubits)\<close> with a sequence: one gate per position, in order.\<close>

definition x_all :: "circuit \<Rightarrow> nat list \<Rightarrow> circuit" where
  "x_all c qs = append_gates c (map X qs)"

definition h_all :: "circuit \<Rightarrow> nat list \<Rightarrow> circuit" where
  "h_all c qs = append_gates c (map H qs)"

definition mcx :: "circuit \<Rightarrow> nat list \<Rightarrow> nat \<Rightarrow> circuit" where
  "mcx c controls target = append_gates c [MCX controls target]"

text \<open>\<open>qc.measure(qubits, clbits)\<close>: position \<open>i\<close> of the first sequence into slot \<open>i\<close> of the second.\<close>

definition measure_all :: "circuit \<Rightarrow> nat list \<Rightarrow> nat list \<Rightarrow> circuit" where
  "measure_all c qs cs = c\<lparr>data := data c @ map (\<lambda>(q, k). Measure q k) (zip qs cs)\<rparr>"

subsection \<open>The binary encoding: \<open>format(number_to_find, '0' + str(len(qubits)) + 'b')\<close>\<close>

text \<open>
  Python's format specification \<open>0Wb\<close> writes the integer in base 2, most significant
  digit first, and pads with zeros after the sign up to a total width of \<open>W\<close> characters;
  a number that needs more than \<open>W\<close> characters is written in full. A negative number
  starts with the character \<open>-\<close>.
\<close>

fun bin_digits :: "nat \<Rightarrow> string" where
  "bin_digits n =
     (if n < 2 then [if n = 0 then CHR ''0'' else CHR ''1'']
      else bin_digits (n div 2) @ [if n mod 2 = 0 then CHR ''0'' else CHR ''1''])"

declare bin_digits.simps [simp del]

definition zero_pad :: "nat \<Rightarrow> string \<Rightarrow> string" where
  "zero_pad w s = replicate (w - length s) CHR ''0'' @ s"

definition format_0b :: "int \<Rightarrow> nat \<Rightarrow> string" where
  "format_0b n w =
     (if n < 0 then CHR ''-'' # zero_pad (w - 1) (bin_digits (nat (- n)))
      else zero_pad w (bin_digits (nat n)))"

subsection \<open>The oracle builder\<close>

text \<open>
  A builder mutates the circuit it is given and may raise. Its model returns the exception
  raised, if any, together with the circuit as it stands at that moment.
\<close>

type_synonym outcome = "error option \<times> circuit"

text \<open>
  The loop \<open>for qubit, bit in enumerate(binary_string): if bit == '0': circuit.x(qubits[qubit])\<close>,
  from index \<open>i\<close> on. Indexing the register at or beyond its length raises \<open>IndexError\<close>.
\<close>

fun flip_zeros :: "circuit \<Rightarrow> nat list \<Rightarrow> nat \<Rightarrow> string \<Rightarrow> outcome" where
  "flip_zeros c qubits i [] = (None, c)"
| "flip_zeros c qubits i (b # bs) =
     (if b = CHR ''0'' then
        (if i < length qubits then flip_zeros (x c (qubits ! i)) qubits (Suc i) bs
         else (Some IndexError, c))
      else flip_zeros c qubits (Suc i) bs)"

text \<open>
  \<open>circuit.h(qubits[-1]); circuit.mcx(qubits[:-1], qubits[-1]); circuit.h(qubits[-1])\<close>.
  \<open>qubits[-1]\<close> raises \<open>IndexError\<close> on an empty register.
\<close>

definition phase_flip :: "circuit \<Rightarrow> nat list \<Rightarrow> outcome" where
  "phase_flip c qubits =
     (if qubits = [] then (Some IndexError, c)
      else (None, h (mcx (h c (last qubits)) (butlast qubits) (last qubits)) (last qubits)))"

text \<open>
  The source function \<open>oracle\<close>; the name is a reserved word of the theory language, so the
  model is called \<open>oracle_builder\<close>.
\<close>

definition oracle_builder :: "circuit \<Rightarrow> nat list \<Rightarrow> int \<Rightarrow> outcome" where
  "oracle_builder c qubits number_to_find =
     (let binary_string = format_0b number_to_find (length qubits) in
      case flip_zeros c qubits 0 binary_string of
        (Some e, c1) \<Rightarrow> (Some e, c1)
      | (None, c1) \<Rightarrow>
          (case phase_flip c1 qubits of
             (Some e, c2) \<Rightarrow> (Some e, c2)
           | (None, c2) \<Rightarrow> flip_zeros c2 qubits 0 binary_string))"

subsection \<open>The diffuser builder\<close>

definition diffuser :: "circuit \<Rightarrow> nat list \<Rightarrow> outcome" where
  "diffuser c qubits =
     (case phase_flip (x_all (h_all c qubits) qubits) qubits of
        (Some e, c1) \<Rightarrow> (Some e, c1)
      | (None, c1) \<Rightarrow> (None, h_all (x_all c1 qubits) qubits))"

subsection \<open>The search driver\<close>

text \<open>
  \<open>math.sqrt(2**n_qubits)\<close> works on binary64 floating-point numbers. The integer
  \<open>2**n_qubits\<close> is first converted to a float: a power of two up to \<open>2**1023\<close> is
  represented exactly, and from \<open>2**1024\<close> on the conversion raises \<open>OverflowError\<close>.
  The square root is then rounded to the nearest number with a significand of 53 bits.
  \<open>round_binary64\<close> is that rounding for a positive real in the normal range: with
  \<open>e\<close> the binary exponent of \<open>r\<close>, the significand is \<open>r / 2^(e - 52)\<close> rounded to the
  nearest integer. (A tie never occurs for the square root of a power of two, which is
  either a power of two itself or irrational.)
\<close>

definition round_binary64 :: "real \<Rightarrow> real" where
  "round_binary64 r =
     (let e = \<lfloor>log 2 r\<rfloor> in real_of_int (round (r * 2 powi (52 - e))) * 2 powi (e - 52))"

definition math_sqrt_pow2 :: "nat \<Rightarrow> error + real" where
  "math_sqrt_pow2 n =
     (if 1024 \<le> n then Inl OverflowError else Inr (round_binary64 (sqrt (2 ^ n))))"

text \<open>\<open>num_iterations = int(math.sqrt(2**n_qubits))\<close>; \<open>int\<close> truncates the float.\<close>

definition num_iterations :: "nat \<Rightarrow> error + nat" where
  "num_iterations n_qubits =
     (case math_sqrt_pow2 n_qubits of Inl e \<Rightarrow> Inl e | Inr r \<Rightarrow> Inr (nat \<lfloor>r\<rfloor>))"

text \<open>
  The loop \<open>for _ in range(num_iterations): oracle(qc, ...); diffuser(qc, ...)\<close>; an
  exception raised by a builder leaves the loop.
\<close>

fun iterate :: "nat \<Rightarrow> circuit \<Rightarrow> nat list \<Rightarrow> int \<Rightarrow> outcome" where
  "iterate 0 qc qubits number_to_find = (None, qc)"
| "iterate (Suc k) qc qubits number_to_find =
     (case oracle_builder qc qubits number_to_find of
        (Some e, qc1) \<Rightarrow> (Some e, qc1)
      | (None, qc1) \<Rightarrow>
          (case diffuser qc1 qubits of
             (Some e, qc2) \<Rightarrow> (Some e, qc2)
           | (None, qc2) \<Rightarrow> iterate k qc2 qubits number_to_find))"

text \<open>
  The circuit construction of \<open>grover_search\<close> (lines 30 to 42). Running the circuit on
  the simulator and collecting the counts (lines 44 to 49) is the external backend's work
  and is not modelled: the model returns the circuit as built.
\<close>

definition grover_search :: "int \<Rightarrow> nat \<Rightarrow> outcome" where
  "grover_search number_to_find n_qubits =
     (let qc = h_all (QuantumCircuit n_qubits n_qubits) [0..<n_qubits] in
      case num_iterations n_qubits of
        Inl e \<Rightarrow> (Some e, qc)
      | Inr k \<Rightarrow>
          (case iterate k qc [0..<n_qubits] number_to_find of
             (Some e, qc1) \<Rightarrow> (Some e, qc1)
           | (None, qc1) \<Rightarrow> (None, measure_all qc1 [0..<n_qubits] [0..<n_qubits])))"

section \<open>Gate sequences as transformations of amplitude vectors\<close>

text \<open>
  A basis state of a register of \<open>N\<close> positions assigns a bit to every position: a list of
  \<open>N\<close> booleans, element \<open>i\<close> being the bit of position \<open>i\<close>. An amplitude vector gives
  every basis state its complex amplitude.
\<close>

type_synonym amplitudes = "bool list \<Rightarrow> complex"

text \<open>
  The standard action of the three gates: \<open>X q\<close> exchanges the amplitudes of the states that
  differ in position \<open>q\<close>; \<open>H q\<close> sends the pair of amplitudes \<open>(u, v)\<close> of two such states
  (bit \<open>0\<close> first) to \<open>((u + v) / sqrt 2, (u - v) / sqrt 2)\<close>; \<open>MCX cs q\<close> acts as \<open>X q\<close> on
  the states whose control positions all hold \<open>1\<close> and leaves the others alone.
\<close>

fun apply_gate :: "gate \<Rightarrow> amplitudes \<Rightarrow> amplitudes" where
  "apply_gate (X q) a = (\<lambda>s. a (s[q := \<not> s ! q]))"
| "apply_gate (H q) a =
     (\<lambda>s. (a (s[q := False]) + (if s ! q then - 1 else 1) * a (s[q := True]))
            / complex_of_real (sqrt 2))"
| "apply_gate (MCX cs q) a =
     (\<lambda>s. if list_all (\<lambda>c. s ! c) cs then a (s[q := \<not> s ! q]) else a s)"

text \<open>A gate sequence acts gate by gate, the first gate of the list first.\<close>

definition run :: "gate list \<Rightarrow> amplitudes \<Rightarrow> amplitudes" where
  "run gs a = fold apply_gate gs a"

text \<open>All \<open>2^N\<close> basis states, and the mean of the amplitudes over them.\<close>

fun basis_states :: "nat \<Rightarrow> bool list list" where
  "basis_states 0 = [[]]"
| "basis_states (Suc n) = map (Cons False) (basis_states n) @ map (Cons True) (basis_states n)"

definition mean :: "nat \<Rightarrow> amplitudes \<Rightarrow> complex" where
  "mean N a = sum_list (map a (basis_states N)) / 2 ^ N"

text \<open>
  The number a basis state stands for, position \<open>0\<close> holding the most significant bit, as
  the encoding of the target is written; and the bits an encoding string spells.
\<close>

definition state_index :: "bool list \<Rightarrow> nat" where
  "state_index s = foldl (\<lambda>v b. 2 * v + (if b then 1 else 0)) 0 s"

definition bit_pattern :: "string \<Rightarrow> bool list" where
  "bit_pattern bs = map (\<lambda>ch. ch = CHR ''1'') bs"

section \<open>The gate sequences the specification describes\<close>

text \<open>
  The oracle: \<open>X\<close> on each position whose character of the target's encoding is \<open>0\<close>, then
  \<open>H\<close> on the last position, the multi-controlled \<open>X\<close> with all but the last position as
  controls and the last as target, \<open>H\<close> on the last position, and the same \<open>X\<close> gates again.
\<close>

definition zero_positions :: "nat \<Rightarrow> int \<Rightarrow> nat list" where
  "zero_positions N t = filter (\<lambda>i. format_0b t N ! i = CHR ''0'') [0..<N]"

definition controlled_flip :: "nat \<Rightarrow> gate list" where
  "controlled_flip N = [H (N - 1), MCX [0..<N - 1] (N - 1), H (N - 1)]"

definition oracle_gates :: "nat \<Rightarrow> int \<Rightarrow> gate list" where
  "oracle_gates N t =
     map X (zero_positions N t) @ controlled_flip N @ map X (zero_positions N t)"

text \<open>
  The diffuser: \<open>H\<close> on every position, \<open>X\<close> on every position, the same three gates in
  the middle, \<open>X\<close> on every position, \<open>H\<close> on every position.
\<close>

definition diffuser_gates :: "nat \<Rightarrow> gate list" where
  "diffuser_gates N =
     map H [0..<N] @ map X [0..<N] @ controlled_flip N @ map X [0..<N] @ map H [0..<N]"

section \<open>Auxiliary notions for the proofs\<close>

text \<open>The basis state reached from \<open>s\<close> by flipping the bits at the positions \<open>qs\<close>.\<close>

definition flips :: "nat list \<Rightarrow> bool list \<Rightarrow> bool list" where
  "flips qs s = foldr (\<lambda>q r. r[q := \<not> r ! q]) qs s"

section \<open>The binary encoding and the bit-flip loop\<close>

lemma bin_digits_chars: "set (bin_digits n) \<subseteq> {CHR ''0'', CHR ''1''}"
  by (induction n rule: bin_digits.induct) (subst bin_digits.simps, auto)

lemma length_bin_digits_le: "n < 2 ^ k \<Longrightarrow> 0 < k \<Longrightarrow> length (bin_digits n) \<le> k"
proof (induction n arbitrary: k rule: bin_digits.induct)
  case (1 n)
  show ?case
  proof (cases "n < 2")
    case True
    with "1.prems" show ?thesis by (subst bin_digits.simps) simp
  next
    case False
    obtain j where k: "k = Suc j" using "1.prems" by (cases k) auto
    have "j > 0" using False "1.prems" k by (cases j) auto
    moreover have "n div 2 < 2 ^ j" using "1.prems" k by auto
    ultimately have "length (bin_digits (n div 2)) \<le> j" using "1.IH" False by simp
    with False k show ?thesis by (subst bin_digits.simps) simp
  qed
qed

lemma length_bin_digits_gt: "2 ^ k \<le> n \<Longrightarrow> k < length (bin_digits n)"
proof (induction n arbitrary: k rule: bin_digits.induct)
  case (1 n)
  show ?case
  proof (cases "n < 2")
    case True
    have "k = 0"
    proof (rule ccontr)
      assume "k \<noteq> 0"
      then have "(2::nat) ^ 1 \<le> 2 ^ k" by (intro power_increasing) auto
      with "1.prems" True show False by simp
    qed
    then show ?thesis using True by (subst bin_digits.simps) simp
  next
    case False
    show ?thesis
    proof (cases k)
      case 0
      then show ?thesis using False by (subst bin_digits.simps) simp
    next
      case (Suc j)
      then have "2 ^ j \<le> n div 2" using "1.prems" by auto
      then have "j < length (bin_digits (n div 2))" using "1.IH" False by simp
      then show ?thesis using False Suc by (subst bin_digits.simps) simp
    qed
  qed
qed

lemma state_index_snoc: "state_index (s @ [b]) = 2 * state_index s + (if b then 1 else 0)"
  by (simp add: state_index_def)

lemma state_index_bin_digits: "state_index (bit_pattern (bin_digits n)) = n"
proof (induction n rule: bin_digits.induct)
  case (1 n)
  show ?case
  proof (cases "n < 2")
    case True
    then have "n = 0 \<or> n = 1" by auto
    then show ?thesis by (subst bin_digits.simps) (auto simp: bit_pattern_def state_index_def)
  next
    case False
    then have "state_index (bit_pattern (bin_digits (n div 2))) = n div 2" using 1 by simp
    then show ?thesis using False
      by (subst bin_digits.simps) (simp add: bit_pattern_def state_index_snoc [simplified], presburger)
  qed
qed


lemma append_gates_append: "append_gates (append_gates c gs) hs = append_gates c (gs @ hs)"
  by (simp add: append_gates_def)

lemma append_gates_Nil: "append_gates c [] = c"
  by (simp add: append_gates_def)

lemma flip_zeros_error:
  "fst (flip_zeros c qs i bs) =
     (if \<exists>j<length bs. bs ! j = CHR ''0'' \<and> length qs \<le> i + j then Some IndexError else None)"
proof (induction bs arbitrary: c i)
  case Nil
  then show ?case by simp
next
  case (Cons b bs)
  have split: "(\<exists>j<length (b # bs). (b # bs) ! j = CHR ''0'' \<and> length qs \<le> i + j) \<longleftrightarrow>
        (b = CHR ''0'' \<and> length qs \<le> i) \<or> (\<exists>j<length bs. bs ! j = CHR ''0'' \<and> length qs \<le> Suc i + j)"
    (is "?L \<longleftrightarrow> ?A \<or> ?B")
  proof
    assume ?L
    then obtain j where j: "j < length (b # bs)" "(b # bs) ! j = CHR ''0''" "length qs \<le> i + j"
      by blast
    show "?A \<or> ?B"
    proof (cases j)
      case 0
      with j show ?thesis by simp
    next
      case (Suc k)
      with j have "k < length bs \<and> bs ! k = CHR ''0'' \<and> length qs \<le> Suc i + k" by simp
      then show ?thesis by blast
    qed
  next
    assume "?A \<or> ?B"
    then show ?L
    proof
      assume ?A
      then have "0 < length (b # bs) \<and> (b # bs) ! 0 = CHR ''0'' \<and> length qs \<le> i + 0" by simp
      then show ?L by blast
    next
      assume ?B
      then obtain k where "k < length bs" "bs ! k = CHR ''0''" "length qs \<le> Suc i + k" by blast
      then have "Suc k < length (b # bs) \<and> (b # bs) ! Suc k = CHR ''0'' \<and> length qs \<le> i + Suc k"
        by simp
      then show ?L by blast
    qed
  qed
  show ?case
  proof (cases "b = CHR ''0''")
    case True
    show ?thesis
    proof (cases "i < length qs")
      case True
      with \<open>b = CHR ''0''\<close> show ?thesis
        unfolding split by (simp add: Cons.IH)
    next
      case False
      with \<open>b = CHR ''0''\<close> show ?thesis
        unfolding split by simp
    qed
  next
    case False
    then show ?thesis unfolding split by (simp add: Cons.IH)
  qed
qed

lemma flip_zeros_frame: "\<exists>gs. snd (flip_zeros c qs i bs) = append_gates c gs"
proof (induction bs arbitrary: c i)
  case Nil
  have "snd (flip_zeros c qs i []) = append_gates c []" by (simp add: append_gates_Nil)
  then show ?case by blast
next
  case (Cons b bs)
  show ?case
  proof (cases "b = CHR ''0''")
    case True
    show ?thesis
    proof (cases "i < length qs")
      case True
      obtain gs where "snd (flip_zeros (x c (qs ! i)) qs (Suc i) bs) = append_gates (x c (qs ! i)) gs"
        using Cons.IH by blast
      then have "snd (flip_zeros c qs i (b # bs)) = append_gates c (X (qs ! i) # gs)"
        using True \<open>b = CHR ''0''\<close> by (simp add: x_def append_gates_append)
      then show ?thesis by blast
    next
      case False
      then have "snd (flip_zeros c qs i (b # bs)) = append_gates c []"
        using \<open>b = CHR ''0''\<close> by (simp add: append_gates_Nil)
      then show ?thesis by blast
    qed
  next
    case False
    then show ?thesis using Cons.IH by simp
  qed
qed

lemma filter_upt_Suc_shift:
  "filter P [0..<Suc n] = (if P 0 then [0] else []) @ map Suc (filter (P \<circ> Suc) [0..<n])"
proof -
  have "[0..<Suc n] = 0 # map Suc [0..<n]"
    by (simp add: upt_conv_Cons map_Suc_upt del: upt_Suc)
  then show ?thesis by (simp add: filter_map del: upt_Suc)
qed

lemma flip_zeros_ok:
  "i + length bs \<le> length qs \<Longrightarrow>
   flip_zeros c qs i bs =
     (None, append_gates c (map (\<lambda>j. X (qs ! (i + j))) (filter (\<lambda>j. bs ! j = CHR ''0'') [0..<length bs])))"
proof (induction bs arbitrary: c i)
  case Nil
  then show ?case by (simp add: append_gates_Nil)
next
  case (Cons b bs)
  have IH: "flip_zeros c' qs (Suc i) bs =
     (None, append_gates c' (map (\<lambda>j. X (qs ! (Suc i + j))) (filter (\<lambda>j. bs ! j = CHR ''0'') [0..<length bs])))"
    for c' using Cons.IH [of "Suc i" c'] Cons.prems by simp
  have "i < length qs" using Cons.prems by simp
  then show ?case
    by (simp add: IH filter_upt_Suc_shift x_def append_gates_append comp_def del: upt_Suc)
qed

lemma state_index_zeros: "state_index (replicate k False @ s) = state_index s"
proof -
  have "foldl (\<lambda>v b. 2 * v + (if b then 1 else 0)) (0::nat) (replicate k False) = 0"
    by (induction k) simp_all
  then show ?thesis by (simp add: state_index_def)
qed

lemma format_0b_nonneg: "0 \<le> t \<Longrightarrow> format_0b t N = zero_pad N (bin_digits (nat t))"
  by (simp add: format_0b_def)

lemma length_format_0b_in_range:
  assumes "0 < N" "0 \<le> t" "t < 2 ^ N"
  shows "length (format_0b t N) = N"
proof -
  have "nat t < 2 ^ N" using assms by (simp add: nat_less_iff)
  then have "length (bin_digits (nat t)) \<le> N" using assms(1) by (rule length_bin_digits_le)
  then show ?thesis using assms(2) by (simp add: format_0b_nonneg zero_pad_def)
qed

lemma length_format_0b_wide:
  assumes "2 ^ N \<le> t"
  shows "N < length (format_0b t N)"
proof -
  have "0 \<le> t" using assms by (smt (verit) zero_le_power)
  moreover have "2 ^ N \<le> nat t" using assms by (simp add: le_nat_iff)
  then have "N < length (bin_digits (nat t))" by (rule length_bin_digits_gt)
  ultimately show ?thesis by (simp add: format_0b_nonneg zero_pad_def)
qed

lemma format_0b_chars: "0 \<le> t \<Longrightarrow> set (format_0b t N) \<subseteq> {CHR ''0'', CHR ''1''}"
  using bin_digits_chars [of "nat t"] by (auto simp: format_0b_nonneg zero_pad_def)

lemma state_index_format_0b: "0 \<le> t \<Longrightarrow> state_index (bit_pattern (format_0b t N)) = nat t"
  using state_index_bin_digits [of "nat t"]
  by (simp add: format_0b_nonneg zero_pad_def bit_pattern_def state_index_zeros
      flip: replicate_append_same)

lemma flip_zeros_register:
  assumes "length bs = N"
  shows "flip_zeros c [0..<N] 0 bs =
           (None, append_gates c (map X (filter (\<lambda>i. bs ! i = CHR ''0'') [0..<N])))"
proof -
  have "map (\<lambda>j. X ([0..<N] ! (0 + j))) (filter (\<lambda>j. bs ! j = CHR ''0'') [0..<N])
        = map X (filter (\<lambda>i. bs ! i = CHR ''0'') [0..<N])"
    by (rule map_cong) auto
  moreover have "flip_zeros c [0..<N] 0 bs = (None, append_gates c
      (map (\<lambda>j. X ([0..<N] ! (0 + j))) (filter (\<lambda>j. bs ! j = CHR ''0'') [0..<length bs])))"
    by (rule flip_zeros_ok) (simp add: assms)
  ultimately show ?thesis by (simp only: assms)
qed

lemma phase_flip_register:
  "0 < N \<Longrightarrow> phase_flip c [0..<N] = (None, append_gates c (controlled_flip N))"
proof -
  assume "0 < N"
  then obtain k where "N = Suc k" by (cases N) auto
  then show ?thesis
    by (simp add: phase_flip_def controlled_flip_def h_def mcx_def append_gates_append)
qed

lemma oracle_builder_register:
  assumes "0 < N" "length (format_0b t N) = N"
  shows "oracle_builder c [0..<N] t = (None, append_gates c (oracle_gates N t))"
  using assms
  by (simp add: oracle_builder_def Let_def flip_zeros_register phase_flip_register oracle_gates_def
      zero_positions_def append_gates_append)

lemma diffuser_register:
  "0 < N \<Longrightarrow> diffuser c [0..<N] = (None, append_gates c (diffuser_gates N))"
  by (simp add: diffuser_def phase_flip_register diffuser_gates_def x_all_def h_all_def
      append_gates_append)

lemma format_9_3: "format_0b 9 3 = ''1001''"
  by code_simp

lemma oracle_9_3:
  "oracle_builder c [0..<3] 9 = (None, append_gates c [X 1, X 2, H 2, MCX [0, 1] 2, H 2, X 1, X 2])"
proof -
  have r: "[0..<3] = [0, 1, 2]" by (simp add: upt_rec)
  have f: "flip_zeros c' [0, 1, 2] 0 ''1001'' = (None, append_gates c' [X 1, X 2])" for c'
    by (simp add: x_def append_gates_append)
  have p: "phase_flip c' [0, 1, 2] = (None, append_gates c' [H 2, MCX [0, 1] 2, H 2])" for c'
    by (simp add: phase_flip_def h_def mcx_def append_gates_append)
  have l: "length [0::nat, 1, 2] = 3" by simp
  show ?thesis
    unfolding oracle_builder_def r l format_9_3 Let_def f p prod.case option.case
    by (simp add: append_gates_append)
qed

lemma oracle_8_3: "fst (oracle_builder (QuantumCircuit 3 3) [0..<3] 8) = Some IndexError"
  by code_simp

lemma oracle_builder_error:
  assumes "qubits \<noteq> []"
  shows "fst (oracle_builder c qubits t) =
           (if \<exists>j<length (format_0b t (length qubits)).
                 format_0b t (length qubits) ! j = CHR ''0'' \<and> length qubits \<le> j
            then Some IndexError else None)"
proof -
  let ?bs = "format_0b t (length qubits)"
  let ?bad = "\<exists>j<length ?bs. ?bs ! j = CHR ''0'' \<and> length qubits \<le> j"
  have e: "fst (flip_zeros c' qubits 0 ?bs) = (if ?bad then Some IndexError else None)" for c'
    using flip_zeros_error [of c' qubits 0 ?bs] by simp
  show ?thesis
  proof (cases ?bad)
    case True
    then obtain c1 where "flip_zeros c qubits 0 ?bs = (Some IndexError, c1)"
      using e [of c] by (cases "flip_zeros c qubits 0 ?bs") auto
    then show ?thesis using True by (simp add: oracle_builder_def)
  next
    case False
    obtain c1 where c1: "flip_zeros c qubits 0 ?bs = (None, c1)"
      using e [of c] False by (cases "flip_zeros c qubits 0 ?bs") auto
    obtain c2 where c2: "phase_flip c1 qubits = (None, c2)"
      using assms by (simp add: phase_flip_def)
    have "fst (flip_zeros c2 qubits 0 ?bs) = None" using e [of c2] False by simp
    then show ?thesis using False c1 c2 by (simp add: oracle_builder_def)
  qed
qed

section \<open>Claims about the builders\<close>

lemma length_format_0b_negative:
  "t < 0 \<Longrightarrow> length (format_0b t N) = max N (Suc (length (bin_digits (nat (- t)))))"
  by (cases N) (auto simp: format_0b_def zero_pad_def)

lemma oracle_builder_loop_raises:
  assumes "fst (flip_zeros c qs 0 (format_0b t (length qs))) = Some IndexError"
  shows "fst (oracle_builder c qs t) = Some IndexError"
proof -
  obtain c1 where "flip_zeros c qs 0 (format_0b t (length qs)) = (Some IndexError, c1)"
    using assms by (cases "flip_zeros c qs 0 (format_0b t (length qs))") auto
  then show ?thesis by (simp add: oracle_builder_def)
qed


lemma format_8_3: "format_0b 8 3 = ''1000''"
  by code_simp

lemma format_5_3: "format_0b 5 3 = ''101''"
  by code_simp

lemma phase_flip_frame: "\<exists>gs. snd (phase_flip c qs) = append_gates c gs"
proof (cases "qs = []")
  case True
  then have "snd (phase_flip c qs) = append_gates c []"
    by (simp add: phase_flip_def append_gates_Nil)
  then show ?thesis by blast
next
  case False
  then have "snd (phase_flip c qs) = append_gates c [H (last qs), MCX (butlast qs) (last qs), H (last qs)]"
    by (simp add: phase_flip_def h_def mcx_def append_gates_append)
  then show ?thesis by blast
qed

lemma oracle_builder_frame: "\<exists>gs. snd (oracle_builder c qs t) = append_gates c gs"
proof -
  let ?bs = "format_0b t (length qs)"
  obtain e1 c1 where r1: "flip_zeros c qs 0 ?bs = (e1, c1)" by (cases "flip_zeros c qs 0 ?bs")
  obtain g1 where g1: "c1 = append_gates c g1" using flip_zeros_frame [of c qs 0 ?bs] r1 by auto
  show ?thesis
  proof (cases e1)
    case (Some e)
    then have "snd (oracle_builder c qs t) = append_gates c g1"
      using r1 g1 by (simp add: oracle_builder_def)
    then show ?thesis by blast
  next
    case None
    obtain e2 c2 where r2: "phase_flip c1 qs = (e2, c2)" by (cases "phase_flip c1 qs")
    obtain g2 where g2: "c2 = append_gates c1 g2" using phase_flip_frame [of c1 qs] r2 by auto
    show ?thesis
    proof (cases e2)
      case (Some e)
      then have "snd (oracle_builder c qs t) = append_gates c (g1 @ g2)"
        using r1 r2 g1 g2 None by (simp add: oracle_builder_def append_gates_append)
      then show ?thesis by blast
    next
      case None2: None
      obtain g3 where "snd (flip_zeros c2 qs 0 ?bs) = append_gates c2 g3"
        using flip_zeros_frame [of c2 qs 0 ?bs] by blast
      then have "snd (oracle_builder c qs t) = append_gates c (g1 @ g2 @ g3)"
        using r1 r2 g1 g2 None None2 by (simp add: oracle_builder_def append_gates_append)
      then show ?thesis by blast
    qed
  qed
qed

lemma diffuser_frame: "\<exists>gs. snd (diffuser c qs) = append_gates c gs"
proof -
  let ?c0 = "x_all (h_all c qs) qs"
  have c0: "?c0 = append_gates c (map H qs @ map X qs)"
    by (simp add: x_all_def h_all_def append_gates_append)
  obtain e1 c1 where r1: "phase_flip ?c0 qs = (e1, c1)" by (cases "phase_flip ?c0 qs")
  obtain g1 where g1: "c1 = append_gates ?c0 g1" using phase_flip_frame [of ?c0 qs] r1 by auto
  show ?thesis
  proof (cases e1)
    case (Some e)
    then have "snd (diffuser c qs) = append_gates c ((map H qs @ map X qs) @ g1)"
      using r1 g1 c0 by (simp add: diffuser_def append_gates_append)
    then show ?thesis by blast
  next
    case None
    then have "snd (diffuser c qs) = append_gates c ((map H qs @ map X qs) @ g1 @ map X qs @ map H qs)"
      using r1 g1 c0 by (simp add: diffuser_def append_gates_append x_all_def h_all_def)
    then show ?thesis by blast
  qed
qed

lemma append_gates_frame:
  "num_qubits (append_gates c gs) = num_qubits c \<and> num_clbits (append_gates c gs) = num_clbits c
   \<and> data (append_gates c gs) = data c @ map Gate gs"
  by (simp add: append_gates_def)

text \<open>
  Claim C9. For every circuit, register and target, the oracle builder and the diffuser
  builder only append gates at the end of the circuit: the instructions already there, the
  number of quantum positions and the number of classical slots are unchanged, and every
  appended instruction is a gate, never a measurement. This holds whether the builder
  completes or raises.
\<close>

theorem builders_only_append_gates:
  "num_qubits (snd (oracle_builder c qubits t)) = num_qubits c
   \<and> num_clbits (snd (oracle_builder c qubits t)) = num_clbits c
   \<and> (\<exists>gs. data (snd (oracle_builder c qubits t)) = data c @ map Gate gs)
   \<and> num_qubits (snd (diffuser c qubits)) = num_qubits c
   \<and> num_clbits (snd (diffuser c qubits)) = num_clbits c
   \<and> (\<exists>gs. data (snd (diffuser c qubits)) = data c @ map Gate gs)"
proof -
  obtain gs where "snd (oracle_builder c qubits t) = append_gates c gs"
    using oracle_builder_frame by blast
  moreover obtain hs where "snd (diffuser c qubits) = append_gates c hs"
    using diffuser_frame by blast
  ultimately show ?thesis using append_gates_frame by metis
qed

text \<open>
  Claim C8, amended. For a register of \<open>N \<ge> 1\<close> positions and a target in
  \<open>[0, 2^N - 1]\<close>, the encoding has exactly \<open>N\<close> characters: the binary digits of the
  target, padded with zeros on the left; it spells the target, most significant bit
  first; and the bit-flip loop pairs character \<open>i\<close> with register position \<open>i\<close>, appending
  \<open>X\<close> on the positions whose character is \<open>0\<close> without raising.
\<close>

theorem encoding_width_in_range:
  assumes "0 < N" "0 \<le> t" "t < 2 ^ N"
  shows "length (format_0b t N) = N
    \<and> format_0b t N = replicate (N - length (bin_digits (nat t))) CHR ''0'' @ bin_digits (nat t)
    \<and> set (format_0b t N) \<subseteq> {CHR ''0'', CHR ''1''}
    \<and> state_index (bit_pattern (format_0b t N)) = nat t
    \<and> flip_zeros c [0..<N] 0 (format_0b t N) = (None, append_gates c (map X (zero_positions N t)))"
proof -
  have l: "length (format_0b t N) = N" using assms by (rule length_format_0b_in_range)
  moreover have "format_0b t N = replicate (N - length (bin_digits (nat t))) CHR ''0'' @ bin_digits (nat t)"
    using assms(2) by (simp add: format_0b_nonneg zero_pad_def)
  moreover have "set (format_0b t N) \<subseteq> {CHR ''0'', CHR ''1''}"
    using assms(2) by (rule format_0b_chars)
  moreover have "state_index (bit_pattern (format_0b t N)) = nat t"
    using assms(2) by (rule state_index_format_0b)
  moreover have "flip_zeros c [0..<N] 0 (format_0b t N) = (None, append_gates c (map X (zero_positions N t)))"
    using flip_zeros_register [OF l] by (simp add: zero_positions_def)
  ultimately show ?thesis by blast
qed

text \<open>The amended claim C8 at \<open>N = 3\<close>, target \<open>5\<close>.\<close>

theorem encoding_width_in_range_witness:
  "length (format_0b 5 3) = 3 \<and> state_index (bit_pattern (format_0b 5 3)) = nat 5
   \<and> flip_zeros (QuantumCircuit 3 3) [0..<3] 0 (format_0b 5 3)
       = (None, append_gates (QuantumCircuit 3 3) (map X (zero_positions 3 5)))"
proof -
  have "(0::nat) < 3" and "(0::int) \<le> 5" and "(5::int) < 2 ^ 3" by simp_all
  then show ?thesis
    using encoding_width_in_range [of 3 5 "QuantumCircuit 3 3"] by blast
qed

text \<open>
  Claim C8 as stated ("always exactly \<open>N\<close> characters") fails: target \<open>9\<close> on three
  positions is encoded in four characters, and target \<open>0\<close> on an empty register in one.
\<close>

theorem encoding_width_counterexample:
  "length (format_0b 9 3) \<noteq> 3 \<and> length (format_0b 0 0) \<noteq> 0"
  by code_simp

text \<open>
  Claim C6, amended. For every register size \<open>N\<close> and every target outside
  \<open>[0, 2^N - 1]\<close>: the encoding of a target \<open>t \<ge> 2^N\<close> is wider than \<open>N\<close> characters,
  while the encoding of a negative target is the sign \<open>-\<close> followed by the zero-padded
  digits, \<open>max N (1 + number of digits)\<close> characters, which need not be wider than \<open>N\<close>.
  The bit-flip loop indexes the register out of bounds (at an index \<open>\<ge> N\<close>) exactly when
  some character of the encoding at an index \<open>\<ge> N\<close> is \<open>0\<close>, and nothing guards it: the
  \<open>IndexError\<close> leaves the oracle builder. When no such character exists and the register
  is not empty, the builder completes.
\<close>

theorem wide_encoding_out_of_bounds:
  "(2 ^ N \<le> t \<longrightarrow> N < length (format_0b t N))
   \<and> (t < 0 \<longrightarrow> length (format_0b t N) = max N (Suc (length (bin_digits (nat (- t))))))
   \<and> (fst (flip_zeros c [0..<N] 0 (format_0b t N)) = Some IndexError
        \<longleftrightarrow> (\<exists>j. N \<le> j \<and> j < length (format_0b t N) \<and> format_0b t N ! j = CHR ''0''))
   \<and> (fst (flip_zeros c [0..<N] 0 (format_0b t N)) = Some IndexError
        \<longrightarrow> fst (oracle_builder c [0..<N] t) = Some IndexError)
   \<and> (0 < N \<longrightarrow> fst (flip_zeros c [0..<N] 0 (format_0b t N)) \<noteq> Some IndexError
        \<longrightarrow> fst (oracle_builder c [0..<N] t) = None)"
proof -
  let ?bs = "format_0b t N"
  let ?bad = "\<exists>j. N \<le> j \<and> j < length ?bs \<and> ?bs ! j = CHR ''0''"
  have w: "N < length ?bs" if "2 ^ N \<le> t" using that by (rule length_format_0b_wide)
  have n: "length ?bs = max N (Suc (length (bin_digits (nat (- t)))))" if "t < 0"
    using that by (rule length_format_0b_negative)
  have l: "fst (flip_zeros c [0..<N] 0 ?bs) = Some IndexError \<longleftrightarrow> ?bad"
    using flip_zeros_error [of c "[0..<N]" 0 ?bs] by auto
  have r: "fst (oracle_builder c [0..<N] t) = Some IndexError"
    if "fst (flip_zeros c [0..<N] 0 ?bs) = Some IndexError"
    using oracle_builder_loop_raises [of c "[0..<N]" t] that by simp
  have k: "fst (oracle_builder c [0..<N] t) = None"
    if "0 < N" and "fst (flip_zeros c [0..<N] 0 ?bs) \<noteq> Some IndexError"
  proof -
    have "[0..<N] \<noteq> []" using that(1) by simp
    moreover have "\<not> ?bad" using that(2) l by simp
    ultimately show ?thesis using oracle_builder_error [of "[0..<N]" c t] by auto
  qed
  show ?thesis using w n l r k by blast
qed

text \<open>
  The amended claim C6 on three positions: target \<open>8\<close> (encoding \<open>1000\<close>) raises, target
  \<open>9\<close> (encoding \<open>1001\<close>) completes, and target \<open>-1\<close> is encoded in three characters.
\<close>

theorem wide_encoding_out_of_bounds_witness:
  "3 < length (format_0b 8 3)
   \<and> fst (oracle_builder (QuantumCircuit 3 3) [0..<3] 8) = Some IndexError
   \<and> fst (oracle_builder (QuantumCircuit 3 3) [0..<3] 9) = None
   \<and> length (format_0b (- 1) 3) = max 3 (Suc (length (bin_digits (nat (- (- 1))))))"
proof -
  have a: "(2::int) ^ 3 \<le> 8" "(0::nat) < 3" "(- 1 :: int) < 0" by simp_all
  have b: "\<exists>j. 3 \<le> j \<and> j < length (format_0b 8 3) \<and> format_0b 8 3 ! j = CHR ''0''"
    by (rule exI [of _ 3]) (simp add: format_8_3)
  have c: "\<not> (\<exists>j. 3 \<le> j \<and> j < length (format_0b 9 3) \<and> format_0b 9 3 ! j = CHR ''0'')"
    unfolding format_9_3
  proof (rule notI, elim exE conjE)
    fix j :: nat
    assume j: "3 \<le> j" "j < length ''1001''" and z: "''1001'' ! j = CHR ''0''"
    from j have "j = 3" by simp
    with z show False by simp
  qed
  show ?thesis
    using wide_encoding_out_of_bounds [of 3 8 "QuantumCircuit 3 3"]
      wide_encoding_out_of_bounds [of 3 9 "QuantumCircuit 3 3"]
      wide_encoding_out_of_bounds [of 3 "- 1" "QuantumCircuit 3 3"] a b c
    by blast
qed

text \<open>
  Claim C6 as stated fails: target \<open>9\<close> is outside \<open>[0, 7]\<close> and the oracle builder
  raises nothing on three positions; target \<open>-1\<close> is outside \<open>[0, 7]\<close> and its encoding
  \<open>-01\<close> is not wider than three characters.
\<close>

theorem wide_encoding_counterexample:
  "fst (oracle_builder (QuantumCircuit 3 3) [0..<3] 9) \<noteq> Some IndexError
   \<and> \<not> 3 < length (format_0b (- 1) 3)"
  by code_simp

text \<open>
  Claim C10. Target \<open>9\<close> lies outside \<open>[0, 2^3 - 1]\<close>, its encoding on three positions is
  \<open>1001\<close>, and the oracle builder completes without any out-of-bounds access, appending a
  gate sequence built from the four-character encoding. For every register, target and
  circuit, the bit-flip loop (both times it runs) raises \<open>IndexError\<close> exactly when some
  character of the encoding at an index at or beyond the register size is \<open>0\<close>.
\<close>

theorem out_of_range_target_accepted:
  "(2::int) ^ 3 - 1 < 9 \<and> format_0b 9 3 = ''1001''
   \<and> oracle_builder c [0..<3] 9
       = (None, append_gates c [X 1, X 2, H 2, MCX [0, 1] 2, H 2, X 1, X 2])
   \<and> (fst (flip_zeros c' qubits 0 (format_0b t (length qubits))) = Some IndexError
        \<longleftrightarrow> (\<exists>j. length qubits \<le> j \<and> j < length (format_0b t (length qubits))
                 \<and> format_0b t (length qubits) ! j = CHR ''0''))"
proof -
  have "fst (flip_zeros c' qubits 0 (format_0b t (length qubits))) = Some IndexError
        \<longleftrightarrow> (\<exists>j. length qubits \<le> j \<and> j < length (format_0b t (length qubits))
                 \<and> format_0b t (length qubits) ! j = CHR ''0'')"
    using flip_zeros_error [of c' qubits 0 "format_0b t (length qubits)"] by auto
  then show ?thesis using format_9_3 oracle_9_3 [of c] by simp
qed

text \<open>Claim C10 on the register \<open>[0, 1, 2]\<close> with target \<open>8\<close>, where the loop raises.\<close>

theorem out_of_range_target_accepted_witness:
  "fst (flip_zeros (QuantumCircuit 3 3) [0, 1, 2] 0 (format_0b 8 3)) = Some IndexError"
proof -
  have l: "length [0::nat, 1, 2] = 3" by simp
  have "\<exists>j. 3 \<le> j \<and> j < length (format_0b 8 3) \<and> format_0b 8 3 ! j = CHR ''0''"
    by (rule exI [of _ 3]) (simp add: format_8_3)
  then show ?thesis
    using out_of_range_target_accepted [of "QuantumCircuit 3 3" "QuantumCircuit 3 3" "[0, 1, 2]" 8]
    unfolding l by blast
qed

section \<open>The action of the gates\<close>

lemma run_Nil: "run [] a = a"
  by (simp add: run_def)

lemma run_Cons: "run (g # gs) a = run gs (apply_gate g a)"
  by (simp add: run_def)

lemma run_append: "run (gs @ hs) a = run hs (run gs a)"
  by (simp add: run_def)

lemma length_flips: "length (flips qs s) = length s"
  by (induction qs) (simp_all add: flips_def)

lemma nth_flips:
  "distinct qs \<Longrightarrow> j < length s \<Longrightarrow> flips qs s ! j = (if j \<in> set qs then \<not> s ! j else s ! j)"
proof (induction qs)
  case Nil
  then show ?case by (simp add: flips_def)
next
  case (Cons q qs)
  have step: "flips (q # qs) s = (flips qs s)[q := \<not> flips qs s ! q]"
    by (simp add: flips_def)
  have IH: "flips qs s ! j = (if j \<in> set qs then \<not> s ! j else s ! j)"
    using Cons by simp
  show ?case
  proof (cases "j = q")
    case True
    then have "flips (q # qs) s ! j = (\<not> flips qs s ! q)"
      using Cons.prems step by (simp add: length_flips)
    then show ?thesis using True IH Cons.prems by auto
  next
    case False
    then show ?thesis using step IH by simp
  qed
qed

lemma run_X_layer: "run (map X qs) a s = a (flips qs s)"
proof (induction qs arbitrary: a)
  case Nil
  then show ?case by (simp add: run_Nil flips_def)
next
  case (Cons q qs)
  have "run (map X (q # qs)) a s = apply_gate (X q) a (flips qs s)"
    using Cons [of "apply_gate (X q) a"] by (simp add: run_Cons)
  then show ?case by (simp add: flips_def)
qed

lemma sqrt2_sq: "complex_of_real (sqrt 2) * complex_of_real (sqrt 2) = 2"
proof -
  have "complex_of_real (sqrt 2) * complex_of_real (sqrt 2) = complex_of_real (sqrt 2 * sqrt 2)"
    by (simp only: of_real_mult)
  then show ?thesis by simp
qed

lemma hadamard_pair_plus:
  "((u + v) / complex_of_real (sqrt 2) + (u - v) / complex_of_real (sqrt 2)) / complex_of_real (sqrt 2) = u"
proof -
  have "((u + v) / complex_of_real (sqrt 2) + (u - v) / complex_of_real (sqrt 2)) / complex_of_real (sqrt 2)
        = (2 * u) / (complex_of_real (sqrt 2) * complex_of_real (sqrt 2))"
    by (simp add: add_divide_distrib [symmetric])
  then show ?thesis by (simp add: sqrt2_sq)
qed

lemma hadamard_pair_minus:
  "((u + v) / complex_of_real (sqrt 2) - (u - v) / complex_of_real (sqrt 2)) / complex_of_real (sqrt 2) = v"
proof -
  have "((u + v) / complex_of_real (sqrt 2) - (u - v) / complex_of_real (sqrt 2)) / complex_of_real (sqrt 2)
        = (2 * v) / (complex_of_real (sqrt 2) * complex_of_real (sqrt 2))"
    by (simp add: diff_divide_distrib [symmetric])
  then show ?thesis by (simp add: sqrt2_sq)
qed

lemma hadamard_pair_plus':
  "((u - v) / complex_of_real (sqrt 2) + (u + v) / complex_of_real (sqrt 2)) / complex_of_real (sqrt 2) = u"
  using hadamard_pair_plus [of u v] by (simp add: add.commute)

lemma hadamard_pair_minus':
  "((u - v) / complex_of_real (sqrt 2) - (u + v) / complex_of_real (sqrt 2)) / complex_of_real (sqrt 2) = - v"
proof -
  have "((u - v) / complex_of_real (sqrt 2) - (u + v) / complex_of_real (sqrt 2)) / complex_of_real (sqrt 2)
        = - (((u + v) / complex_of_real (sqrt 2) - (u - v) / complex_of_real (sqrt 2)) / complex_of_real (sqrt 2))"
    by (simp add: divide_simps)
  then show ?thesis by (simp only: hadamard_pair_minus)
qed

lemma update_same: "s ! q = v \<Longrightarrow> s[q := v] = s"
  by auto

lemma controls_update:
  "q \<notin> set cs \<Longrightarrow> list_all (\<lambda>c. s[q := v] ! c) cs = list_all (\<lambda>c. s ! c) cs"
  by (induction cs) auto

lemma run_H_MCX_H:
  assumes "q < length s" "q \<notin> set cs"
  shows "run [H q, MCX cs q, H q] a s = (if list_all (\<lambda>c. s ! c) cs \<and> s ! q then - a s else a s)"
proof -
  let ?c = "complex_of_real (sqrt 2)"
  let ?u = "a (s[q := False])" and ?v = "a (s[q := True])"
  have b0: "apply_gate (H q) a (s[q := False]) = (?u + ?v) / ?c"
    using assms(1) by simp
  have b1: "apply_gate (H q) a (s[q := True]) = (?u - ?v) / ?c"
    using assms(1) by simp
  let ?m = "apply_gate (MCX cs q) (apply_gate (H q) a)"
  have m0: "?m (s[q := False]) = (if list_all (\<lambda>c. s ! c) cs then (?u - ?v) / ?c else (?u + ?v) / ?c)"
    using assms b0 b1 by (simp add: controls_update del: apply_gate.simps(2))
  have m1: "?m (s[q := True]) = (if list_all (\<lambda>c. s ! c) cs then (?u + ?v) / ?c else (?u - ?v) / ?c)"
    using assms b0 b1 by (simp add: controls_update del: apply_gate.simps(2))
  have r: "run [H q, MCX cs q, H q] a s = (?m (s[q := False]) + (if s ! q then - 1 else 1) * ?m (s[q := True])) / ?c"
    by (simp add: run_Cons run_Nil)
  show ?thesis
  proof (cases "s ! q")
    case True
    then have "s[q := True] = s" by (intro update_same) simp
    then show ?thesis
      unfolding r m0 m1 using True
      by (simp add: hadamard_pair_minus hadamard_pair_minus' del: apply_gate.simps)
  next
    case False
    then have "s[q := False] = s" by (intro update_same) simp
    then show ?thesis
      unfolding r m0 m1 using False
      by (simp add: hadamard_pair_plus hadamard_pair_plus' del: apply_gate.simps)
  qed
qed

section \<open>The oracle sequence marks the target\<close>

lemma all_ones_iff: "length s = N \<Longrightarrow> (s = replicate N True) = (\<forall>j<N. s ! j)"
  by (simp add: list_eq_iff_nth_eq)

lemma run_controlled_flip:
  assumes "0 < N" "length s = N"
  shows "run (controlled_flip N) a s = (if s = replicate N True then - a s else a s)"
proof -
  obtain k where N: "N = Suc k" using assms(1) by (cases N) auto
  have q: "k < length s" using assms(2) N by simp
  have nc: "k \<notin> set [0..<k]" by simp
  have r: "run [H k, MCX [0..<k] k, H k] a s
        = (if list_all (\<lambda>c. s ! c) [0..<k] \<and> s ! k then - a s else a s)"
    using q nc by (rule run_H_MCX_H)
  have c: "(list_all (\<lambda>c. s ! c) [0..<k] \<and> s ! k) = (\<forall>j<Suc k. s ! j)"
  proof -
    have "(\<forall>c\<in>set [0..<k]. s ! c) = (\<forall>j<k. s ! j)" by auto
    then show ?thesis by (simp only: list_all_iff All_less_Suc conj_commute)
  qed
  have o: "(s = replicate (Suc k) True) = (\<forall>j<Suc k. s ! j)"
    using assms(2) unfolding N by (rule all_ones_iff)
  have "controlled_flip N = [H k, MCX [0..<k] k, H k]"
    by (simp add: controlled_flip_def N)
  then show ?thesis unfolding N r c o by (simp only: r c)
qed

lemma distinct_zero_positions: "distinct (zero_positions N t)"
  by (simp add: zero_positions_def)

lemma set_zero_positions: "set (zero_positions N t) = {i. i < N \<and> format_0b t N ! i = CHR ''0''}"
  by (auto simp: zero_positions_def)

lemma nth_flips_zero_positions:
  assumes "length s = N" "j < N"
  shows "flips (zero_positions N t) s ! j = (if format_0b t N ! j = CHR ''0'' then \<not> s ! j else s ! j)"
  using nth_flips [OF distinct_zero_positions, of j s N t] assms
  by (simp add: set_zero_positions)

lemma flips_zero_positions_twice:
  assumes "length s = N"
  shows "flips (zero_positions N t) (flips (zero_positions N t) s) = s"
proof (rule nth_equalityI)
  show "length (flips (zero_positions N t) (flips (zero_positions N t) s)) = length s"
    by (simp add: length_flips)
next
  fix j assume "j < length (flips (zero_positions N t) (flips (zero_positions N t) s))"
  then have j: "j < N" using assms by (simp add: length_flips)
  have "length (flips (zero_positions N t) s) = N" using assms by (simp add: length_flips)
  then show "flips (zero_positions N t) (flips (zero_positions N t) s) ! j = s ! j"
    using nth_flips_zero_positions [of "flips (zero_positions N t) s" N j t]
      nth_flips_zero_positions [OF assms j, of t] j by simp
qed

lemma flips_zero_positions_ones:
  assumes "length s = N" "length (format_0b t N) = N"
  shows "(flips (zero_positions N t) s = replicate N True)
         = (s = map (\<lambda>ch. ch \<noteq> CHR ''0'') (format_0b t N))"
proof -
  have "length (flips (zero_positions N t) s) = N" using assms by (simp add: length_flips)
  then have "(flips (zero_positions N t) s = replicate N True)
             = (\<forall>j<N. flips (zero_positions N t) s ! j)"
    by (rule all_ones_iff)
  also have "\<dots> = (\<forall>j<N. s ! j = (format_0b t N ! j \<noteq> CHR ''0''))"
    using nth_flips_zero_positions [OF assms(1)] by auto
  also have "\<dots> = (s = map (\<lambda>ch. ch \<noteq> CHR ''0'') (format_0b t N))"
    using assms by (auto simp: list_eq_iff_nth_eq)
  finally show ?thesis .
qed

lemma run_oracle_gates:
  assumes "0 < N" "length s = N" "length (format_0b t N) = N"
  shows "run (oracle_gates N t) a s
         = (if s = map (\<lambda>ch. ch \<noteq> CHR ''0'') (format_0b t N) then - a s else a s)"
proof -
  let ?F = "flips (zero_positions N t)"
  have len: "length (?F s) = N" using assms by (simp add: length_flips)
  have "run (oracle_gates N t) a s
        = run (controlled_flip N) (run (map X (zero_positions N t)) a) (?F s)"
    by (simp add: oracle_gates_def run_append run_X_layer)
  also have "\<dots> = (if ?F s = replicate N True then - run (map X (zero_positions N t)) a (?F s)
                    else run (map X (zero_positions N t)) a (?F s))"
    using run_controlled_flip [OF assms(1) len] by simp
  also have "run (map X (zero_positions N t)) a (?F s) = a s"
    using flips_zero_positions_twice [OF assms(2)] by (simp add: run_X_layer)
  finally show ?thesis
    using flips_zero_positions_ones [OF assms(2,3)] by simp
qed




lemma bin_digits_ones: "bin_digits (2 ^ Suc n - 1) = replicate (Suc n) CHR ''1''"
proof (induction n)
  case 0
  show ?case by (subst bin_digits.simps) simp
next
  case (Suc n)
  have ge: "\<not> (2::nat) ^ Suc (Suc n) - 1 < 2"
  proof -
    have "(1::nat) \<le> 2 ^ n" by simp
    then have "(4::nat) \<le> 2 ^ Suc (Suc n)" by simp
    then show ?thesis by linarith
  qed
  define k where "k = (2::nat) ^ Suc n"
  have k: "1 \<le> k" unfolding k_def by simp
  have pk: "(2::nat) ^ Suc (Suc n) = 2 * k" unfolding k_def by simp
  have "(2 * k - 1) div 2 = k - 1" and "(2 * k - 1) mod 2 = 1" using k by presburger+
  then have d: "((2::nat) ^ Suc (Suc n) - 1) div 2 = 2 ^ Suc n - 1"
    and m: "((2::nat) ^ Suc (Suc n) - 1) mod 2 = 1"
    unfolding pk by (simp_all only: k_def)
  have "bin_digits (2 ^ Suc (Suc n) - 1) = bin_digits (2 ^ Suc n - 1) @ [CHR ''1'']"
    by (subst bin_digits.simps) (simp only: ge d m if_False, simp)
  then have "bin_digits (2 ^ Suc (Suc n) - 1) = replicate (Suc n) CHR ''1'' @ [CHR ''1'']"
    using Suc by simp
  then show ?case by (simp add: replicate_append_same)
qed

lemma format_0b_zero: "0 < N \<Longrightarrow> format_0b 0 N = replicate N CHR ''0''"
proof -
  assume "0 < N"
  then obtain n where "N = Suc n" by (cases N) auto
  moreover have "bin_digits 0 = [CHR ''0'']" by (subst bin_digits.simps) simp
  ultimately show ?thesis
    by (simp add: format_0b_def zero_pad_def replicate_append_same)
qed

lemma format_0b_ones: "0 < N \<Longrightarrow> format_0b (2 ^ N - 1) N = replicate N CHR ''1''"
proof -
  assume "0 < N"
  then obtain n where N: "N = Suc n" by (cases N) auto
  have pos: "(1::int) \<le> 2 ^ N" by simp
  then have nn: "\<not> (2::int) ^ N - 1 < 0" by linarith
  have "nat (2 ^ N - 1) = 2 ^ N - 1"
    using pos by (simp add: nat_diff_distrib nat_power_eq)
  then have "bin_digits (nat (2 ^ N - 1)) = replicate N CHR ''1''"
    using bin_digits_ones [of n] N by simp
  then show ?thesis
    unfolding format_0b_def using nn by (simp add: zero_pad_def)
qed




text \<open>
  Claim C7, amended. On a register of \<open>N \<ge> 1\<close> positions the boundary targets \<open>0\<close> and
  \<open>2^N - 1\<close> are encoded as \<open>N\<close> zeros and \<open>N\<close> ones; the oracle builder completes for both
  (no \<open>IndexError\<close>), and the gate sequence it appends negates the amplitude of exactly the
  all-zero, respectively the all-one, basis state.
\<close>

theorem oracle_boundary_targets:
  assumes "0 < N"
  shows "format_0b 0 N = replicate N CHR ''0''
    \<and> format_0b (2 ^ N - 1) N = replicate N CHR ''1''
    \<and> oracle_builder c [0..<N] 0 = (None, append_gates c (oracle_gates N 0))
    \<and> oracle_builder c [0..<N] (2 ^ N - 1) = (None, append_gates c (oracle_gates N (2 ^ N - 1)))
    \<and> (\<forall>s. length s = N \<longrightarrow>
          run (oracle_gates N 0) a s = (if s = replicate N False then - a s else a s))
    \<and> (\<forall>s. length s = N \<longrightarrow>
          run (oracle_gates N (2 ^ N - 1)) a s = (if s = replicate N True then - a s else a s))"
proof -
  have z: "format_0b 0 N = replicate N CHR ''0''" using assms by (rule format_0b_zero)
  have o: "format_0b (2 ^ N - 1) N = replicate N CHR ''1''" using assms by (rule format_0b_ones)
  have lz: "length (format_0b 0 N) = N" by (simp add: z)
  have lo: "length (format_0b (2 ^ N - 1) N) = N" by (simp add: o)
  have bz: "oracle_builder c [0..<N] 0 = (None, append_gates c (oracle_gates N 0))"
    using assms lz by (rule oracle_builder_register)
  have bo: "oracle_builder c [0..<N] (2 ^ N - 1) = (None, append_gates c (oracle_gates N (2 ^ N - 1)))"
    using assms lo by (rule oracle_builder_register)
  have rz: "run (oracle_gates N 0) a s = (if s = replicate N False then - a s else a s)"
    if "length s = N" for s
    using run_oracle_gates [OF assms that lz, of a] by (simp add: z)
  have ro: "run (oracle_gates N (2 ^ N - 1)) a s = (if s = replicate N True then - a s else a s)"
    if "length s = N" for s
    using run_oracle_gates [OF assms that lo, of a] by (simp add: o)
  show ?thesis using z o bz bo rz ro by blast
qed

text \<open>The amended claim C7 on two positions.\<close>

theorem oracle_boundary_targets_witness:
  "format_0b 0 2 = ''00'' \<and> format_0b 3 2 = ''11''
   \<and> fst (oracle_builder (QuantumCircuit 2 2) [0..<2] 0) = None
   \<and> fst (oracle_builder (QuantumCircuit 2 2) [0..<2] 3) = None
   \<and> run (oracle_gates 2 0) (\<lambda>s. 1) [False, False] = - 1
   \<and> run (oracle_gates 2 0) (\<lambda>s. 1) [False, True] = 1
   \<and> run (oracle_gates 2 3) (\<lambda>s. 1) [True, True] = - 1
   \<and> run (oracle_gates 2 3) (\<lambda>s. 1) [True, False] = 1"
proof -
  have h: "(0::nat) < 2" by simp
  have r: "replicate 2 x = [x, x]" for x :: 'a by (simp add: numeral_2_eq_2)
  have n: "(2::int) ^ 2 - 1 = 3" by simp
  have l: "length [b1, b2] = 2" for b1 b2 :: bool by simp
  show ?thesis
    using oracle_boundary_targets [OF h, of "QuantumCircuit 2 2" "\<lambda>s. 1"] l
    unfolding r n by simp
qed

text \<open>
  Claim C7 as stated fails on the empty register, where the boundary target is
  \<open>0 = 2^0 - 1\<close>: the bit-flip loop raises \<open>IndexError\<close>, the condition the claim excludes.
\<close>

theorem oracle_boundary_targets_counterexample:
  "(2::int) ^ 0 - 1 = 0 \<and> format_0b 0 0 = ''0''
   \<and> fst (flip_zeros (QuantumCircuit 0 0) [0..<0] 0 (format_0b 0 0)) = Some IndexError
   \<and> fst (oracle_builder (QuantumCircuit 0 0) [0..<0] 0) = Some IndexError"
  by code_simp

section \<open>The iteration count\<close>

lemma sqrt_pow2_even: "sqrt (2 ^ (2 * k)) = 2 ^ k"
proof -
  have "(2::real) ^ (2 * k) = (2 ^ k)\<^sup>2" by (simp add: power_mult [symmetric] mult.commute)
  then show ?thesis by simp
qed

lemma sqrt_pow2_odd: "sqrt (2 ^ Suc (2 * k)) = sqrt 2 * 2 ^ k"
proof -
  have "sqrt (2 ^ Suc (2 * k)) = sqrt (2 * 2 ^ (2 * k))" by simp
  also have "\<dots> = sqrt 2 * sqrt (2 ^ (2 * k))" by (rule real_sqrt_mult)
  finally show ?thesis by (simp only: sqrt_pow2_even)
qed

lemma log2_sqrt_pow2: "log 2 (sqrt (2 ^ n)) = real n / 2"
proof -
  have "log 2 (sqrt (2 ^ n)) = ln (sqrt (2 ^ n)) / ln 2" by (simp add: log_def)
  also have "\<dots> = (ln (2 ^ n) / 2) / ln 2" by (simp add: ln_sqrt)
  also have "\<dots> = real n / 2" by (simp add: ln_realpow)
  finally show ?thesis .
qed

lemma exponent_sqrt_pow2: "\<lfloor>log 2 (sqrt (2 ^ n))\<rfloor> = int (n div 2)"
proof -
  have "\<lfloor>real n / real 2\<rfloor> = int (n div 2)" by (rule floor_divide_of_nat_eq)
  then show ?thesis by (simp add: log2_sqrt_pow2)
qed

lemma sqrt2_scaled_bounds:
  "6369051672525772 < sqrt 2 * 2 ^ 52" "sqrt 2 * 2 ^ 52 < 6369051672525773"
  "6369051672525773 - 1 / 2 < sqrt 2 * 2 ^ 52"
proof -
  have e: "sqrt 2 * 2 ^ 52 = sqrt (2 ^ 105)"
    using sqrt_pow2_odd [of 52] by simp
  have "(6369051672525772::real)\<^sup>2 < 2 ^ 105" by simp
  then show "6369051672525772 < sqrt 2 * 2 ^ 52" unfolding e by (rule real_less_rsqrt)
  have "(2::real) ^ 105 < 6369051672525773\<^sup>2" by simp
  then show "sqrt 2 * 2 ^ 52 < 6369051672525773" unfolding e by (intro real_less_lsqrt) simp_all
  have "(6369051672525773 - 1 / 2 :: real)\<^sup>2 < 2 ^ 105" by (simp add: power2_eq_square)
  then show "6369051672525773 - 1 / 2 < sqrt 2 * 2 ^ 52" unfolding e by (rule real_less_rsqrt)
qed

lemma round_sqrt2_scaled: "round (sqrt 2 * 2 ^ 52) = 6369051672525773"
proof (rule round_unique)
  show "sqrt 2 * 2 ^ 52 - 1 / 2 < real_of_int 6369051672525773"
    using sqrt2_scaled_bounds(2) by simp
  show "real_of_int 6369051672525773 \<le> sqrt 2 * 2 ^ 52 + 1 / 2"
    using sqrt2_scaled_bounds(3) by simp
qed

lemma floor_sqrt2_scaled: "\<lfloor>sqrt 2 * 2 ^ 52\<rfloor> = 6369051672525772"
proof (rule floor_unique)
  show "real_of_int 6369051672525772 \<le> sqrt 2 * 2 ^ 52" using sqrt2_scaled_bounds(1) by simp
  show "sqrt 2 * 2 ^ 52 < real_of_int 6369051672525772 + 1" using sqrt2_scaled_bounds(2) by simp
qed

lemma pow2_rescale: "(2::real) ^ k * 2 powi (52 - int k) = 2 ^ 52"
proof -
  have "(2::real) powi (int k) * 2 powi (52 - int k) = 2 powi (int k + (52 - int k))"
    by (rule power_int_add [symmetric]) simp
  then show ?thesis by simp
qed

lemma pow2_rescale_back: "(2::real) ^ 52 * 2 powi (int k - 52) = 2 ^ k"
proof -
  have "(2::real) powi (int 52) * 2 powi (int k - 52) = 2 powi (int 52 + (int k - 52))"
    by (rule power_int_add [symmetric]) simp
  then show ?thesis by simp
qed

lemma round_binary64_sqrt_even: "round_binary64 (sqrt (2 ^ (2 * k))) = 2 ^ k"
proof -
  have "2 * k div 2 = k" by simp
  then have e: "\<lfloor>log 2 (sqrt (2 ^ (2 * k)))\<rfloor> = int k"
    using exponent_sqrt_pow2 [of "2 * k"] by (simp only:)
  have r: "round ((2::real) ^ 52) = 2 ^ 52"
    using round_of_int [of "2 ^ 52", where ?'a = real] by simp
  have "round_binary64 (sqrt (2 ^ (2 * k)))
        = real_of_int (round (sqrt (2 ^ (2 * k)) * 2 powi (52 - \<lfloor>log 2 (sqrt (2 ^ (2 * k)))\<rfloor>)))
          * 2 powi (\<lfloor>log 2 (sqrt (2 ^ (2 * k)))\<rfloor> - 52)"
    by (simp only: round_binary64_def Let_def)
  also have "\<dots> = real_of_int (round ((2::real) ^ k * 2 powi (52 - int k))) * 2 powi (int k - 52)"
    by (simp only: e, simp only: sqrt_pow2_even)
  also have "\<dots> = real_of_int (round ((2::real) ^ 52)) * 2 powi (int k - 52)"
    by (simp only: pow2_rescale)
  also have "\<dots> = (2::real) ^ 52 * 2 powi (int k - 52)"
    by (simp only: r) simp
  also have "\<dots> = 2 ^ k" by (rule pow2_rescale_back)
  finally show ?thesis .
qed

lemma round_binary64_sqrt_odd:
  "round_binary64 (sqrt (2 ^ Suc (2 * k))) = 6369051672525773 * 2 powi (int k - 52)"
proof -
  have "Suc (2 * k) div 2 = k" by simp
  then have e: "\<lfloor>log 2 (sqrt (2 ^ Suc (2 * k)))\<rfloor> = int k"
    using exponent_sqrt_pow2 [of "Suc (2 * k)"] by (simp only:)
  have s: "sqrt 2 * 2 ^ k * 2 powi (52 - int k) = sqrt 2 * 2 ^ 52"
    using pow2_rescale [of k] by (simp only: mult.assoc)
  have "round_binary64 (sqrt (2 ^ Suc (2 * k)))
        = real_of_int (round (sqrt (2 ^ Suc (2 * k)) * 2 powi (52 - \<lfloor>log 2 (sqrt (2 ^ Suc (2 * k)))\<rfloor>)))
          * 2 powi (\<lfloor>log 2 (sqrt (2 ^ Suc (2 * k)))\<rfloor> - 52)"
    by (simp only: round_binary64_def Let_def)
  also have "\<dots> = real_of_int (round (sqrt 2 * 2 ^ k * 2 powi (52 - int k))) * 2 powi (int k - 52)"
    by (simp only: e, simp only: sqrt_pow2_odd)
  also have "\<dots> = real_of_int (round (sqrt 2 * 2 ^ 52)) * 2 powi (int k - 52)"
    by (simp only: s)
  also have "\<dots> = 6369051672525773 * 2 powi (int k - 52)"
    by (simp only: round_sqrt2_scaled of_int_numeral)
  finally show ?thesis .
qed


lemma num_iterations_even:
  assumes "2 * k < 1024"
  shows "num_iterations (2 * k) = Inr (2 ^ k)"
proof -
  have "nat \<lfloor>(2::real) ^ k\<rfloor> = 2 ^ k"
    using floor_of_nat [of "2 ^ k", where ?'a = real] by simp
  moreover have "num_iterations (2 * k) = Inr (nat \<lfloor>round_binary64 (sqrt (2 ^ (2 * k)))\<rfloor>)"
    using assms by (simp add: num_iterations_def math_sqrt_pow2_def)
  ultimately show ?thesis by (simp only: round_binary64_sqrt_even)
qed

lemma num_iterations_odd_small:
  assumes "k \<le> 52"
  shows "num_iterations (Suc (2 * k)) = Inr (6369051672525773 div 2 ^ (52 - k))"
proof -
  have "int k - 52 = - int (52 - k)" using assms by simp
  then have "(2::real) powi (int k - 52) = inverse (2 ^ (52 - k))"
    by (simp only: power_int_minus power_int_of_nat)
  then have "6369051672525773 * (2::real) powi (int k - 52)
             = real_of_int 6369051672525773 / real_of_int (2 ^ (52 - k))"
    by (simp add: divide_inverse)
  then have "\<lfloor>6369051672525773 * (2::real) powi (int k - 52)\<rfloor>
             = 6369051672525773 div 2 ^ (52 - k)"
    by (simp only: floor_divide_of_int_eq)
  moreover have "nat (6369051672525773 div 2 ^ (52 - k)) = 6369051672525773 div 2 ^ (52 - k)"
    by (simp add: nat_div_distrib nat_power_eq)
  moreover have "num_iterations (Suc (2 * k))
                 = Inr (nat \<lfloor>round_binary64 (sqrt (2 ^ Suc (2 * k)))\<rfloor>)"
    using assms by (simp add: num_iterations_def math_sqrt_pow2_def del: power_Suc)
  ultimately show ?thesis by (simp only: round_binary64_sqrt_odd)
qed

lemma floor_sqrt_pow2_even: "nat \<lfloor>sqrt (2 ^ (2 * k))\<rfloor> = 2 ^ k"
  using floor_of_nat [of "2 ^ k", where ?'a = real] by (simp add: sqrt_pow2_even)

lemma floor_sqrt_pow2_odd_small:
  assumes "k \<le> 52"
  shows "nat \<lfloor>sqrt (2 ^ Suc (2 * k))\<rfloor> = 6369051672525772 div 2 ^ (52 - k)"
proof -
  have "(2::real) ^ k * 2 ^ (52 - k) = 2 ^ 52"
    using assms by (simp add: power_add [symmetric])
  then have "sqrt 2 * 2 ^ k = sqrt 2 * 2 ^ 52 / real_of_int (2 ^ (52 - k))"
    by (simp add: field_simps)
  then have "\<lfloor>sqrt (2 ^ Suc (2 * k))\<rfloor> = \<lfloor>sqrt 2 * 2 ^ 52 / real_of_int (2 ^ (52 - k))\<rfloor>"
    by (simp only: sqrt_pow2_odd)
  also have "\<dots> = \<lfloor>sqrt 2 * 2 ^ 52\<rfloor> div 2 ^ (52 - k)"
    by (rule floor_divide_real_eq_div) simp
  finally have "\<lfloor>sqrt (2 ^ Suc (2 * k))\<rfloor> = 6369051672525772 div 2 ^ (52 - k)"
    by (simp only: floor_sqrt2_scaled)
  then show ?thesis by (simp add: nat_div_distrib nat_power_eq)
qed

lemma significand_div:
  assumes "0 < j"
  shows "(6369051672525773::nat) div 2 ^ j = 6369051672525772 div 2 ^ j"
proof -
  obtain i where j: "j = Suc i" using assms by (cases j) auto
  have "(6369051672525773::nat) div (2 * 2 ^ i) = 6369051672525773 div 2 div 2 ^ i"
    by (rule div_mult2_eq)
  moreover have "(6369051672525772::nat) div (2 * 2 ^ i) = 6369051672525772 div 2 div 2 ^ i"
    by (rule div_mult2_eq)
  ultimately show ?thesis unfolding j by simp
qed

lemma num_iterations_exact:
  assumes "n \<le> 104"
  shows "num_iterations n = Inr (nat \<lfloor>sqrt (2 ^ n)\<rfloor>)"
proof (cases "even n")
  case True
  then obtain k where n: "n = 2 * k" by (elim evenE)
  then have "2 * k < 1024" using assms by simp
  then show ?thesis unfolding n by (simp only: num_iterations_even floor_sqrt_pow2_even)
next
  case False
  then obtain k where n: "n = Suc (2 * k)" by (elim oddE) simp
  then have k: "k \<le> 51" using assms by simp
  then have "k \<le> 52" and "0 < 52 - k" by simp_all
  then show ?thesis
    unfolding n by (simp only: num_iterations_odd_small floor_sqrt_pow2_odd_small significand_div)
qed

lemma num_iterations_3: "num_iterations 3 = Inr 2"
proof -
  have "num_iterations (Suc (2 * 1)) = Inr (6369051672525773 div 2 ^ (52 - 1))"
    by (rule num_iterations_odd_small) simp
  moreover have "Suc (2 * 1) = 3" by simp
  ultimately show ?thesis by simp
qed

lemma num_iterations_105: "num_iterations 105 = Inr 6369051672525773"
proof -
  have "num_iterations (Suc (2 * 52)) = Inr (6369051672525773 div 2 ^ (52 - 52))"
    by (rule num_iterations_odd_small) simp
  moreover have "Suc (2 * 52) = 105" by simp
  ultimately show ?thesis by simp
qed

lemma floor_sqrt_105: "nat \<lfloor>sqrt (2 ^ 105)\<rfloor> = 6369051672525772"
proof -
  have "nat \<lfloor>sqrt (2 ^ Suc (2 * 52))\<rfloor> = 6369051672525772 div 2 ^ (52 - 52)"
    by (rule floor_sqrt_pow2_odd_small) simp
  moreover have "Suc (2 * 52) = 105" by simp
  ultimately show ?thesis by simp
qed

lemma num_iterations_overflow: "1024 \<le> n \<Longrightarrow> num_iterations n = Inl OverflowError"
  by (simp add: num_iterations_def math_sqrt_pow2_def)

section \<open>The search driver\<close>

lemma iterate_register:
  assumes "0 < N" "length (format_0b t N) = N"
  shows "iterate k c [0..<N] t
         = (None, append_gates c (concat (replicate k (oracle_gates N t @ diffuser_gates N))))"
proof (induction k arbitrary: c)
  case 0
  show ?case by (simp add: append_gates_Nil)
next
  case (Suc k)
  show ?case
    by (simp add: oracle_builder_register [OF assms] diffuser_register [OF assms(1)] Suc
        append_gates_append)
qed

lemma measure_all_same:
  "measure_all c qs qs = c\<lparr>data := data c @ map (\<lambda>i. Measure i i) qs\<rparr>"
  by (simp add: measure_all_def zip_same_conv_map comp_def)

lemma grover_search_loop:
  assumes "num_iterations n = Inr k"
  shows "grover_search t n
         = (case iterate k (h_all (QuantumCircuit n n) [0..<n]) [0..<n] t of
              (Some e, qc1) \<Rightarrow> (Some e, qc1)
            | (None, qc1) \<Rightarrow> (None, measure_all qc1 [0..<n] [0..<n]))"
  using assms by (simp add: grover_search_def)

lemma grover_search_register:
  assumes "0 < N" "length (format_0b t N) = N" "num_iterations N = Inr k"
  shows "grover_search t N
         = (None, \<lparr>num_qubits = N, num_clbits = N,
                   data = map Gate (map H [0..<N])
                          @ concat (replicate k (map Gate (oracle_gates N t) @ map Gate (diffuser_gates N)))
                          @ map (\<lambda>i. Measure i i) [0..<N]\<rparr>)"
proof -
  have "map Gate (concat (replicate k (oracle_gates N t @ diffuser_gates N)))
        = concat (replicate k (map Gate (oracle_gates N t) @ map Gate (diffuser_gates N)))"
    by (simp add: map_concat map_replicate)
  then show ?thesis
    unfolding grover_search_loop [OF assms(3)] iterate_register [OF assms(1,2)]
    by (simp add: measure_all_same h_all_def append_gates_def QuantumCircuit_def)
qed

lemma floor_sqrt_8: "nat \<lfloor>sqrt (2 ^ 3)\<rfloor> = 2"
proof -
  have "nat \<lfloor>sqrt (2 ^ Suc (2 * 1))\<rfloor> = 6369051672525772 div 2 ^ (52 - 1)"
    by (rule floor_sqrt_pow2_odd_small) simp
  moreover have "Suc (2 * 1) = 3" by simp
  ultimately show ?thesis by simp
qed

lemma oracle_builder_8_3: "fst (oracle_builder c [0..<3] 8) = Some IndexError"
proof -
  have "\<exists>j<length (format_0b 8 3). format_0b 8 3 ! j = CHR ''0'' \<and> length [0..<3] \<le> 0 + j"
    by (rule exI [of _ 3]) (simp add: format_8_3)
  then have "fst (flip_zeros c [0..<3] 0 (format_0b 8 (length [0..<3]))) = Some IndexError"
    using flip_zeros_error [of c "[0..<3]" 0 "format_0b 8 3"] by simp
  then show ?thesis by (rule oracle_builder_loop_raises)
qed

lemma iterate_raises:
  "fst (oracle_builder c qs t) = Some e \<Longrightarrow> fst (iterate (Suc k) c qs t) = Some e"
  by (cases "oracle_builder c qs t") simp

lemma grover_search_8_3: "fst (grover_search 8 3) = Some IndexError"
proof -
  let ?c = "h_all (QuantumCircuit 3 3) [0..<3]"
  have "fst (iterate (Suc 1) ?c [0..<3] 8) = Some IndexError"
    using oracle_builder_8_3 by (rule iterate_raises)
  then obtain qc where "iterate 2 ?c [0..<3] 8 = (Some IndexError, qc)"
    by (cases "iterate 2 ?c [0..<3] 8") (simp add: numeral_2_eq_2)
  then show ?thesis
    unfolding grover_search_loop [OF num_iterations_3] by simp
qed

lemma num_iterations_0: "num_iterations 0 = Inr 1"
  using num_iterations_even [of 0] by simp

lemma grover_search_0_0: "fst (grover_search 0 0) = Some IndexError"
proof -
  let ?c = "h_all (QuantumCircuit 0 0) [0..<0]"
  have "[0..<0] = ([]::nat list)" by simp
  have "fst (flip_zeros ?c [] 0 (format_0b 0 (length ([]::nat list)))) = Some IndexError"
    by (simp add: format_0b_def zero_pad_def bin_digits.simps)
  then have "fst (oracle_builder ?c [] 0) = Some IndexError"
    by (rule oracle_builder_loop_raises)
  then have "fst (iterate (Suc 0) ?c [] 0) = Some IndexError"
    by (rule iterate_raises)
  then obtain qc where "iterate 1 ?c [0..<0] 0 = (Some IndexError, qc)"
    by (cases "iterate 1 ?c [0..<0] 0") simp
  then show ?thesis
    unfolding grover_search_loop [OF num_iterations_0] by simp
qed

text \<open>
  Claim C4, amended. For every register size \<open>N \<le> 104\<close> the iteration count the driver
  computes is exactly \<open>floor (sqrt (2^N))\<close>, the square root truncated to an integer, and
  the driver runs its loop of (oracle, diffuser) pairs with exactly that bound, for every
  target; when the register is not empty and the target lies in \<open>[0, 2^N - 1]\<close> (no
  builder raises) it appends exactly that many pairs.
\<close>

theorem iteration_count_truncates:
  assumes "n \<le> 104"
  shows "num_iterations n = Inr (nat \<lfloor>sqrt (2 ^ n)\<rfloor>)
    \<and> grover_search t n
        = (case iterate (nat \<lfloor>sqrt (2 ^ n)\<rfloor>) (h_all (QuantumCircuit n n) [0..<n]) [0..<n] t of
             (Some e, qc1) \<Rightarrow> (Some e, qc1)
           | (None, qc1) \<Rightarrow> (None, measure_all qc1 [0..<n] [0..<n]))
    \<and> (0 < n \<and> 0 \<le> t \<and> t < 2 ^ n \<longrightarrow>
         data (snd (grover_search t n))
         = map Gate (map H [0..<n])
           @ concat (replicate (nat \<lfloor>sqrt (2 ^ n)\<rfloor>)
               (map Gate (oracle_gates n t) @ map Gate (diffuser_gates n)))
           @ map (\<lambda>i. Measure i i) [0..<n])"
proof -
  have cnt: "num_iterations n = Inr (nat \<lfloor>sqrt (2 ^ n)\<rfloor>)"
    using assms by (rule num_iterations_exact)
  have "data (snd (grover_search t n))
         = map Gate (map H [0..<n])
           @ concat (replicate (nat \<lfloor>sqrt (2 ^ n)\<rfloor>)
               (map Gate (oracle_gates n t) @ map Gate (diffuser_gates n)))
           @ map (\<lambda>i. Measure i i) [0..<n]"
    if "0 < n" "0 \<le> t" "t < 2 ^ n"
  proof -
    have "length (format_0b t n) = n" using that by (rule length_format_0b_in_range)
    then show ?thesis using grover_search_register [OF that(1) _ cnt, of t] by simp
  qed
  then show ?thesis using cnt grover_search_loop [OF cnt] by blast
qed

text \<open>The amended claim C4 at \<open>N = 3\<close>, target \<open>5\<close>: the count is \<open>2\<close>, not \<open>3\<close>.\<close>

theorem iteration_count_truncates_witness:
  "num_iterations 3 = Inr (nat \<lfloor>sqrt (2 ^ 3)\<rfloor>) \<and> nat \<lfloor>sqrt (2 ^ 3)\<rfloor> = 2
   \<and> data (snd (grover_search 5 3))
       = map Gate (map H [0..<3])
         @ concat (replicate (nat \<lfloor>sqrt (2 ^ 3)\<rfloor>)
             (map Gate (oracle_gates 3 5) @ map Gate (diffuser_gates 3)))
         @ map (\<lambda>i. Measure i i) [0..<3]"
proof -
  have "(3::nat) \<le> 104" and "(0::nat) < 3 \<and> (0::int) \<le> 5 \<and> (5::int) < 2 ^ 3" by simp_all
  then show ?thesis using iteration_count_truncates [of 3 5] floor_sqrt_8 by blast
qed

text \<open>
  Claim C4 as stated ("for every register size") fails: at \<open>N = 105\<close> the rounded
  floating-point square root is the integer above the exact root, so the count is one
  more than \<open>floor (sqrt (2^105))\<close>; at \<open>N = 1024\<close> the conversion to a float raises
  \<open>OverflowError\<close> and there is no count.
\<close>

theorem iteration_count_counterexample:
  "num_iterations 105 = Inr 6369051672525773 \<and> nat \<lfloor>sqrt (2 ^ 105)\<rfloor> = 6369051672525772
   \<and> num_iterations 1024 = Inl OverflowError"
  using num_iterations_105 floor_sqrt_105 num_iterations_overflow [of 1024] by simp

text \<open>
  Claim C3, amended. For every register size \<open>N\<close> with \<open>1 \<le> N \<le> 104\<close> and every target \<open>t\<close>
  in \<open>[0, 2^N - 1]\<close>, the search driver completes with a circuit of \<open>N\<close> quantum positions
  and \<open>N\<close> classical slots whose instructions are exactly: a Hadamard on every position,
  then \<open>floor (sqrt (2^N))\<close> times the gates of the oracle builder followed by the gates of
  the diffuser builder (each built against the same target and register), then the
  measurement of every position \<open>i\<close> into slot \<open>i\<close>.
\<close>

theorem grover_search_structure:
  assumes "0 < N" "N \<le> 104" "0 \<le> t" "t < 2 ^ N"
  shows "grover_search t N
         = (None, \<lparr>num_qubits = N, num_clbits = N,
                   data = map Gate (map H [0..<N])
                          @ concat (replicate (nat \<lfloor>sqrt (2 ^ N)\<rfloor>)
                              (map Gate (oracle_gates N t) @ map Gate (diffuser_gates N)))
                          @ map (\<lambda>i. Measure i i) [0..<N]\<rparr>)
    \<and> oracle_builder c [0..<N] t = (None, append_gates c (oracle_gates N t))
    \<and> diffuser c [0..<N] = (None, append_gates c (diffuser_gates N))"
proof -
  have len: "length (format_0b t N) = N" using assms(1,3,4) by (rule length_format_0b_in_range)
  have cnt: "num_iterations N = Inr (nat \<lfloor>sqrt (2 ^ N)\<rfloor>)" using assms(2) by (rule num_iterations_exact)
  show ?thesis
    using grover_search_register [OF assms(1) len cnt] oracle_builder_register [OF assms(1) len]
      diffuser_register [OF assms(1)]
    by blast
qed

text \<open>The amended claim C3 at \<open>N = 3\<close>, target \<open>5\<close>: two (oracle, diffuser) pairs.\<close>

theorem grover_search_structure_witness:
  "grover_search 5 3
     = (None, \<lparr>num_qubits = 3, num_clbits = 3,
               data = map Gate (map H [0..<3])
                      @ concat (replicate (nat \<lfloor>sqrt (2 ^ 3)\<rfloor>)
                          (map Gate (oracle_gates 3 5) @ map Gate (diffuser_gates 3)))
                      @ map (\<lambda>i. Measure i i) [0..<3]\<rparr>)
   \<and> nat \<lfloor>sqrt (2 ^ 3)\<rfloor> = 2"
proof -
  have "(0::nat) < 3" "(3::nat) \<le> 104" "(0::int) \<le> 5" "(5::int) < 2 ^ 3" by simp_all
  then show ?thesis
    using grover_search_structure [of 3 5 "QuantumCircuit 3 3"] floor_sqrt_8 by blast
qed

text \<open>
  Claim C3 as stated ("for every target and register size") fails: with target \<open>8\<close> on
  three positions the first oracle call raises \<open>IndexError\<close> and the driver builds no
  complete circuit; on the empty register the oracle raises as well; and at \<open>N = 105\<close> the
  computed count is one more than \<open>floor (sqrt (2^105))\<close>.
\<close>

theorem grover_search_structure_counterexample:
  "fst (grover_search 8 3) = Some IndexError
   \<and> fst (grover_search 0 0) = Some IndexError
   \<and> num_iterations 105 = Inr 6369051672525773
   \<and> nat \<lfloor>sqrt (2 ^ 105)\<rfloor> = 6369051672525772"
  using grover_search_8_3 grover_search_0_0 num_iterations_105 floor_sqrt_105 by simp

section \<open>The Hadamard layer\<close>

lemma apply_gate_cong:
  assumes "\<And>r. length r = N \<Longrightarrow> a r = b r" "length s = N"
  shows "apply_gate g a s = apply_gate g b s"
  using assms by (cases g) simp_all

lemma run_cong:
  assumes "\<And>r. length r = N \<Longrightarrow> a r = b r" "length s = N"
  shows "run gs a s = run gs b s"
  using assms
proof (induction gs arbitrary: a b s)
  case Nil
  then show ?case by (simp add: run_Nil)
next
  case (Cons g gs)
  have "apply_gate g a r = apply_gate g b r" if "length r = N" for r
    using Cons.prems(1) that by (rule apply_gate_cong)
  then have "run gs (apply_gate g a) s = run gs (apply_gate g b) s"
    using Cons.prems(2) by (rule Cons.IH)
  then show ?case by (simp only: run_Cons)
qed

lemma apply_gate_linear:
  "apply_gate g (\<lambda>s. u s + k * v s) = (\<lambda>s. apply_gate g u s + k * apply_gate g v s)"
proof (cases g)
  case (X q)
  then show ?thesis by simp
next
  case (H q)
  have "(u0 + k * v0 + e * (u1 + k * v1)) / c = (u0 + e * u1) / c + k * ((v0 + e * v1) / c)"
    for u0 v0 u1 v1 e c :: complex
    by (simp add: algebra_simps add_divide_distrib)
  then show ?thesis unfolding H by (simp only: apply_gate.simps)
next
  case (MCX cs q)
  then show ?thesis by auto
qed

lemma run_linear:
  "run gs (\<lambda>s. u s + k * v s) = (\<lambda>s. run gs u s + k * run gs v s)"
proof (induction gs arbitrary: u v)
  case Nil
  show ?case by (simp add: run_Nil)
next
  case (Cons g gs)
  have "run (g # gs) (\<lambda>s. u s + k * v s)
        = run gs (\<lambda>s. apply_gate g u s + k * apply_gate g v s)"
    by (simp only: run_Cons apply_gate_linear)
  also have "\<dots> = (\<lambda>s. run gs (apply_gate g u) s + k * run gs (apply_gate g v) s)"
    by (rule Cons.IH)
  finally show ?case by (simp only: run_Cons)
qed

lemma hadamard_back_plus:
  "((u + v) / complex_of_real (sqrt 2) + 1 * ((u - v) / complex_of_real (sqrt 2)))
     / complex_of_real (sqrt 2) = u"
  using hadamard_pair_plus [of u v] by simp

lemma hadamard_back_minus:
  "((u + v) / complex_of_real (sqrt 2) + - 1 * ((u - v) / complex_of_real (sqrt 2)))
     / complex_of_real (sqrt 2) = v"
proof -
  have "(u + v) / complex_of_real (sqrt 2) + - 1 * ((u - v) / complex_of_real (sqrt 2))
        = (u + v) / complex_of_real (sqrt 2) - (u - v) / complex_of_real (sqrt 2)"
    by (simp only: mult_minus1 add_uminus_conv_diff)
  then show ?thesis by (simp only: hadamard_pair_minus)
qed

lemma hadamard_twice:
  assumes "q < length s"
  shows "apply_gate (H q) (apply_gate (H q) a) s = a s"
proof -
  let ?c = "complex_of_real (sqrt 2)"
  let ?u = "a (s[q := False])" and ?v = "a (s[q := True])"
  have b0: "apply_gate (H q) a (s[q := False]) = (?u + ?v) / ?c"
    using assms by simp
  have b1: "apply_gate (H q) a (s[q := True]) = (?u - ?v) / ?c"
    using assms by simp
  have r: "apply_gate (H q) (apply_gate (H q) a) s
           = ((?u + ?v) / ?c + (if s ! q then - 1 else 1) * ((?u - ?v) / ?c)) / ?c"
    by (simp only: apply_gate.simps(2) [of q "apply_gate (H q) a"] b0 b1)
  show ?thesis
  proof (cases "s ! q")
    case True
    then have "s[q := True] = s" by (intro update_same) simp
    then have "?v = a s" by simp
    then show ?thesis unfolding r using True by (simp only: if_True hadamard_back_minus)
  next
    case False
    then have "s[q := False] = s" by (intro update_same) simp
    then have "?u = a s" by simp
    then show ?thesis unfolding r using False by (simp only: if_False hadamard_back_plus)
  qed
qed

lemma hadamard_commute:
  assumes "p \<noteq> q"
  shows "apply_gate (H p) (apply_gate (H q) a) = apply_gate (H q) (apply_gate (H p) a)"
proof
  fix s :: "bool list"
  let ?c = "complex_of_real (sqrt 2)"
  have sw: "s[p := x, q := y] = s[q := y, p := x]" for x y
    using assms by (simp add: list_update_swap)
  have "((u + e * v) / ?c + d * ((w + e * z) / ?c)) / ?c
        = ((u + d * w) / ?c + e * ((v + d * z) / ?c)) / ?c" for u v w z e d :: complex
    by (simp add: algebra_simps add_divide_distrib)
  then show "apply_gate (H p) (apply_gate (H q) a) s = apply_gate (H q) (apply_gate (H p) a) s"
    using assms by (simp add: sw)
qed

lemma hadamard_layer_commute:
  "q \<notin> set qs \<Longrightarrow> run (map H qs) (apply_gate (H q) a) = apply_gate (H q) (run (map H qs) a)"
proof (induction qs arbitrary: a)
  case Nil
  show ?case by (simp add: run_Nil)
next
  case (Cons p qs)
  then have pq: "q \<noteq> p" and nin: "q \<notin> set qs" by auto
  have "run (map H (p # qs)) (apply_gate (H q) a)
        = run (map H qs) (apply_gate (H p) (apply_gate (H q) a))"
    by (simp add: run_Cons)
  also have "\<dots> = run (map H qs) (apply_gate (H q) (apply_gate (H p) a))"
    using hadamard_commute [of p q a] pq by simp
  also have "\<dots> = apply_gate (H q) (run (map H qs) (apply_gate (H p) a))"
    using nin by (rule Cons.IH)
  finally show ?case by (simp add: run_Cons)
qed

lemma hadamard_layer_twice:
  assumes "distinct qs" "\<forall>q\<in>set qs. q < length s"
  shows "run (map H qs) (run (map H qs) a) s = a s"
  using assms
proof (induction qs arbitrary: a)
  case Nil
  show ?case by (simp add: run_Nil)
next
  case (Cons q qs)
  then have nin: "q \<notin> set qs" and d: "distinct qs" and b: "\<forall>p\<in>set qs. p < length s"
    and q: "q < length s" by auto
  have "run (map H (q # qs)) (run (map H (q # qs)) a)
        = run (map H qs) (apply_gate (H q) (run (map H qs) (apply_gate (H q) a)))"
    by (simp add: run_Cons)
  also have "\<dots> = run (map H qs) (run (map H qs) (apply_gate (H q) (apply_gate (H q) a)))"
    by (simp only: hadamard_layer_commute [OF nin])
  finally have "run (map H (q # qs)) (run (map H (q # qs)) a) s
                = apply_gate (H q) (apply_gate (H q) a) s"
    using Cons.IH [OF d b] by simp
  then show ?case using q by (simp only: hadamard_twice)
qed

lemma flips_all: "length s = N \<Longrightarrow> flips [0..<N] s = map Not s"
  by (rule nth_equalityI) (simp_all add: length_flips nth_flips)

lemma run_X_all: "length s = N \<Longrightarrow> run (map X [0..<N]) a s = a (map Not s)"
  by (simp add: run_X_layer flips_all)

lemma map_Not_ones: "length s = N \<Longrightarrow> (map Not s = replicate N True) = (s = replicate N False)"
  by (auto simp: list_eq_iff_nth_eq)

lemma run_zero_flip:
  assumes "0 < N" "length s = N"
  shows "run (map X [0..<N] @ controlled_flip N @ map X [0..<N]) b s
         = (if s = replicate N False then - b s else b s)"
proof -
  have len: "length (map Not s) = N" using assms(2) by simp
  have undo: "run (map X [0..<N]) b (map Not s) = b s"
    using run_X_all [OF len, of b] by (simp add: comp_def)
  have "run (map X [0..<N] @ controlled_flip N @ map X [0..<N]) b s
        = run (controlled_flip N) (run (map X [0..<N]) b) (map Not s)"
    using run_X_all [OF assms(2)] by (simp add: run_append)
  also have "\<dots> = (if map Not s = replicate N True then - run (map X [0..<N]) b (map Not s)
                    else run (map X [0..<N]) b (map Not s))"
    using assms(1) len by (rule run_controlled_flip)
  finally show ?thesis
    by (simp only: undo map_Not_ones [OF assms(2)])
qed

lemma run_snoc: "run (gs @ [g]) a = apply_gate g (run gs a)"
  by (simp add: run_append run_Cons run_Nil)

lemma hadamard_layer_delta:
  assumes "length s = N" "k \<le> N"
  shows "run (map H [0..<k]) (\<lambda>r. if r = replicate N False then 1 else 0) s
         = (if \<forall>j. k \<le> j \<and> j < N \<longrightarrow> \<not> s ! j then 1 / complex_of_real (sqrt 2) ^ k else 0)"
  using assms
proof (induction k arbitrary: s)
  case 0
  have "(s = replicate N False) = (\<forall>j<N. \<not> s ! j)"
    using "0.prems"(1) by (auto simp: list_eq_iff_nth_eq)
  then show ?case by (simp add: run_Nil)
next
  case (Suc k)
  let ?d = "\<lambda>r. if r = replicate N False then (1::complex) else 0"
  let ?c = "complex_of_real (sqrt 2)"
  have k: "k < N" "k \<le> N" "k < length s" using Suc.prems by simp_all
  have IH: "run (map H [0..<k]) ?d r
            = (if \<forall>j. k \<le> j \<and> j < N \<longrightarrow> \<not> r ! j then 1 / ?c ^ k else 0)"
    if "length r = N" for r using Suc.IH [OF that k(2)] .
  have t: "run (map H [0..<k]) ?d (s[k := True]) = 0"
  proof -
    have "\<not> (\<forall>j. k \<le> j \<and> j < N \<longrightarrow> \<not> s[k := True] ! j)"
      using k by (auto intro!: exI [of _ k])
    then show ?thesis using IH [of "s[k := True]"] Suc.prems(1) by simp
  qed
  have f: "run (map H [0..<k]) ?d (s[k := False])
           = (if \<forall>j. Suc k \<le> j \<and> j < N \<longrightarrow> \<not> s ! j then 1 / ?c ^ k else 0)"
  proof -
    have "(\<forall>j. k \<le> j \<and> j < N \<longrightarrow> \<not> s[k := False] ! j)
          = (\<forall>j. Suc k \<le> j \<and> j < N \<longrightarrow> \<not> s ! j)"
    proof (intro iffI allI impI)
      fix j assume a: "\<forall>j. k \<le> j \<and> j < N \<longrightarrow> \<not> s[k := False] ! j" and j: "Suc k \<le> j \<and> j < N"
      from j have "k \<le> j \<and> j < N" and "j \<noteq> k" by simp_all
      with a have "\<not> s[k := False] ! j" by blast
      then show "\<not> s ! j" using \<open>j \<noteq> k\<close> by simp
    next
      fix j assume a: "\<forall>j. Suc k \<le> j \<and> j < N \<longrightarrow> \<not> s ! j" and j: "k \<le> j \<and> j < N"
      show "\<not> s[k := False] ! j"
      proof (cases "j = k")
        case True
        then show ?thesis using k by simp
      next
        case False
        then have "Suc k \<le> j \<and> j < N" using j by simp
        then show ?thesis using a False by simp
      qed
    qed
    then show ?thesis using IH [of "s[k := False]"] Suc.prems(1) by simp
  qed
  have "run (map H [0..<Suc k]) ?d s = apply_gate (H k) (run (map H [0..<k]) ?d) s"
    by (simp add: run_snoc)
  also have "\<dots> = (run (map H [0..<k]) ?d (s[k := False])
                    + (if s ! k then - 1 else 1) * run (map H [0..<k]) ?d (s[k := True])) / ?c"
    by simp
  also have "\<dots> = (if \<forall>j. Suc k \<le> j \<and> j < N \<longrightarrow> \<not> s ! j then 1 / ?c ^ Suc k else 0)"
    unfolding t f by simp
  finally show ?case .
qed

lemma sum_basis_states_Suc:
  fixes f :: "bool list \<Rightarrow> complex"
  shows "sum_list (map f (basis_states (Suc m)))
   = sum_list (map (\<lambda>r. f (False # r) + f (True # r)) (basis_states m))"
  by (simp add: sum_list_addf comp_def)

lemma sum_list_div_const:
  fixes g :: "'a \<Rightarrow> complex"
  shows "sum_list (map (\<lambda>r. g r / c) xs) = sum_list (map g xs) / c"
  by (induction xs) (simp_all add: add_divide_distrib)

lemma hadamard_layer_zero_state:
  assumes "j + m = N" "length s = N" "\<forall>i. j \<le> i \<and> i < N \<longrightarrow> \<not> s ! i"
  shows "run (map H [j..<N]) a s
         = sum_list (map (\<lambda>r. a (take j s @ r)) (basis_states m)) / complex_of_real (sqrt 2) ^ m"
  using assms
proof (induction m arbitrary: j a)
  case 0
  then have "j = N" by simp
  then show ?case using "0.prems"(2) by (simp add: run_Nil)
next
  case (Suc m)
  let ?c = "complex_of_real (sqrt 2)"
  have j: "j < N" "Suc j + m = N" "j < length s" using Suc.prems by simp_all
  have z: "\<forall>i. Suc j \<le> i \<and> i < N \<longrightarrow> \<not> s ! i" using Suc.prems(3) by simp
  have sj: "\<not> s ! j" using Suc.prems(3) j(1) by simp
  have tk: "take (Suc j) s = take j s @ [False]"
    using j(3) sj by (simp add: take_Suc_conv_app_nth)
  have lt: "length (take j s) = j" using j(3) by simp
  have g: "apply_gate (H j) a (take (Suc j) s @ r)
           = (a (take j s @ False # r) + a (take j s @ True # r)) / ?c" for r
  proof -
    have u: "(take j s @ False # r)[j := v] = take j s @ v # r" for v
      using lt by (simp add: list_update_append)
    have n: "\<not> (take j s @ False # r) ! j"
      using lt by (simp add: nth_append)
    show ?thesis
      unfolding tk using n by (simp add: u del: list_update.simps)
  qed
  have "run (map H [j..<N]) a s = run (map H [Suc j..<N]) (apply_gate (H j) a) s"
    using j(1) by (simp add: upt_conv_Cons run_Cons)
  also have "\<dots> = sum_list (map (\<lambda>r. apply_gate (H j) a (take (Suc j) s @ r)) (basis_states m)) / ?c ^ m"
    using j(2) Suc.prems(2) z by (rule Suc.IH)
  also have "\<dots> = sum_list (map (\<lambda>r. (a (take j s @ False # r) + a (take j s @ True # r)) / ?c)
                       (basis_states m)) / ?c ^ m"
    by (simp only: g)
  also have "\<dots> = sum_list (map (\<lambda>r. a (take j s @ False # r) + a (take j s @ True # r))
                       (basis_states m)) / ?c / ?c ^ m"
    by (simp only: sum_list_div_const)
  also have "\<dots> = sum_list (map (\<lambda>r. a (take j s @ r)) (basis_states (Suc m))) / ?c ^ Suc m"
    by (simp only: sum_basis_states_Suc [of "\<lambda>r. a (take j s @ r)"]) simp
  finally show ?case .
qed

section \<open>The diffuser sequence\<close>

lemma sqrt2_power_sq: "complex_of_real (sqrt 2) ^ N * complex_of_real (sqrt 2) ^ N = 2 ^ N"
  by (simp add: power_mult_distrib [symmetric] sqrt2_sq)

lemma length_basis_states: "length (basis_states N) = 2 ^ N"
  by (induction N) simp_all

lemma length_in_basis_states: "r \<in> set (basis_states N) \<Longrightarrow> length r = N"
  by (induction N arbitrary: r) auto

lemma mean_cong:
  assumes "\<And>r. length r = N \<Longrightarrow> f r = g r"
  shows "mean N f = mean N g"
proof -
  have "map f (basis_states N) = map g (basis_states N)"
    by (rule map_cong) (simp_all add: assms length_in_basis_states)
  then show ?thesis
    unfolding mean_def by (rule arg_cong [where f = "\<lambda>l. sum_list l / 2 ^ N"])
qed

lemma mean_shift: "mean N (\<lambda>r. a r - k) = mean N a - k"
proof -
  have "sum_list (map (\<lambda>r. a r - k) (basis_states N))
        = sum_list (map a (basis_states N)) - 2 ^ N * k"
    by (simp add: sum_list_subtractf sum_list_triv length_basis_states)
  then show ?thesis by (simp add: mean_def diff_divide_distrib)
qed

lemma diffuser_action:
  assumes "0 < N" "length s = N"
  shows "run (diffuser_gates N) a s = a s - 2 * mean N a"
proof -
  let ?c = "complex_of_real (sqrt 2)"
  let ?z = "replicate N False"
  let ?d = "\<lambda>r. if r = ?z then (1::complex) else 0"
  let ?W = "run (map H [0..<N])"
  let ?Z = "run (map X [0..<N] @ controlled_flip N @ map X [0..<N])"
  let ?b = "?W a"
  have split: "run (diffuser_gates N) a = ?W (?Z ?b)"
    by (simp add: diffuser_gates_def run_append)
  have zb: "?Z ?b r = ?b r + (- 2 * ?b ?z) * ?d r" if "length r = N" for r
    using run_zero_flip [OF assms(1) that, of ?b] by simp
  have "?W (?Z ?b) s = ?W (\<lambda>r. ?b r + (- 2 * ?b ?z) * ?d r) s"
    using zb assms(2) by (rule run_cong)
  also have "\<dots> = ?W ?b s + (- 2 * ?b ?z) * ?W ?d s"
    by (simp only: run_linear)
  finally have step: "run (diffuser_gates N) a s = ?W ?b s + (- 2 * ?b ?z) * ?W ?d s"
    by (simp only: split)
  have undo: "?W ?b s = a s"
    by (rule hadamard_layer_twice) (simp_all add: assms(2))
  have delta: "?W ?d s = 1 / ?c ^ N"
    using hadamard_layer_delta [OF assms(2), of N] by simp
  have zero: "?b ?z = sum_list (map a (basis_states N)) / ?c ^ N"
    using hadamard_layer_zero_state [of 0 N N ?z a] by simp
  have "(- 2 * (sum_list (map a (basis_states N)) / ?c ^ N)) * (1 / ?c ^ N)
        = - 2 * (sum_list (map a (basis_states N)) / (?c ^ N * ?c ^ N))"
    by simp
  also have "\<dots> = - 2 * mean N a"
    by (simp only: sqrt2_power_sq mean_def)
  finally have "(- 2 * ?b ?z) * ?W ?d s = - 2 * mean N a"
    by (simp only: zero delta)
  then show ?thesis unfolding step undo by simp
qed

lemma diffuser_gates_twice:
  assumes "0 < N" "length s = N"
  shows "run (diffuser_gates N @ diffuser_gates N) a s = a s"
proof -
  let ?m = "mean N a"
  have once: "run (diffuser_gates N) a r = a r - 2 * ?m" if "length r = N" for r
    using assms(1) that by (rule diffuser_action)
  have "mean N (run (diffuser_gates N) a) = mean N (\<lambda>r. a r - 2 * ?m)"
    using once by (rule mean_cong)
  then have m: "mean N (run (diffuser_gates N) a) = ?m - 2 * ?m"
    by (simp only: mean_shift)
  have "run (diffuser_gates N @ diffuser_gates N) a s
        = run (diffuser_gates N) (run (diffuser_gates N) a) s"
    by (simp only: run_append)
  also have "\<dots> = run (diffuser_gates N) a s - 2 * mean N (run (diffuser_gates N) a)"
    using assms by (rule diffuser_action)
  also have "\<dots> = (a s - 2 * ?m) - 2 * (?m - 2 * ?m)"
    by (simp only: once [OF assms(2)] m)
  finally show ?thesis by simp
qed

lemma append_gates_inject: "append_gates c gs = append_gates c hs \<Longrightarrow> gs = hs"
proof -
  assume "append_gates c gs = append_gates c hs"
  then have "data (append_gates c gs) = data (append_gates c hs)" by simp
  then have "map Gate gs = map Gate hs" by (simp add: append_gates_def)
  then show ?thesis by (simp add: inj_map_eq_map inj_def)
qed

lemma diffuser_empty_register: "diffuser c [] = (Some IndexError, c)"
  by (simp add: diffuser_def phase_flip_def x_all_def h_all_def append_gates_Nil)

lemma mean_2_const: "mean 2 (\<lambda>s. 1) = 1"
  by (simp add: mean_def numeral_2_eq_2)

text \<open>
  Claim C2, amended. For every register size \<open>N \<ge> 1\<close> the diffuser builder completes and
  appends the gate sequence \<open>diffuser_gates N\<close> (\<open>H\<close> on every position, \<open>X\<close> on every
  position, \<open>H\<close> on the last position, the multi-controlled \<open>X\<close>, \<open>H\<close> on the last position,
  \<open>X\<close> on every position, \<open>H\<close> on every position); applied to any amplitude vector it maps
  the amplitude \<open>a s\<close> of every basis state to \<open>a s - 2 * mean\<close>, the negative of the
  inversion about the mean \<open>2 * mean - a s\<close>.
\<close>

theorem diffuser_negated_inversion:
  assumes "0 < N"
  shows "diffuser c [0..<N] = (None, append_gates c (diffuser_gates N))
    \<and> (\<forall>s. length s = N \<longrightarrow> run (diffuser_gates N) a s = - (2 * mean N a - a s))"
proof -
  have "diffuser c [0..<N] = (None, append_gates c (diffuser_gates N))"
    using assms by (rule diffuser_register)
  moreover have "run (diffuser_gates N) a s = - (2 * mean N a - a s)" if "length s = N" for s
    using diffuser_action [OF assms that, of a] by simp
  ultimately show ?thesis by blast
qed

text \<open>The amended claim C2 on two positions, on the constant amplitude vector.\<close>

theorem diffuser_negated_inversion_witness:
  "diffuser (QuantumCircuit 2 2) [0..<2]
     = (None, append_gates (QuantumCircuit 2 2) (diffuser_gates 2))
   \<and> run (diffuser_gates 2) (\<lambda>s. 1) [False, True] = - (2 * mean 2 (\<lambda>s. 1) - 1)
   \<and> mean 2 (\<lambda>s. 1) = 1"
proof -
  have "(0::nat) < 2" and "length [False, True] = 2" by simp_all
  then show ?thesis
    using diffuser_negated_inversion [of 2 "QuantumCircuit 2 2" "\<lambda>s. 1"] mean_2_const
    by blast
qed

text \<open>
  Claim C2 as stated fails: on two positions the diffuser builder completes, and its gate
  sequence sends the constant vector \<open>1\<close> (mean \<open>1\<close>) to \<open>-1\<close> at the all-zero state, where
  \<open>2 * mean - a s\<close> is \<open>1\<close>. On the empty register the builder raises \<open>IndexError\<close>.
\<close>

theorem diffuser_inversion_counterexample:
  "diffuser (QuantumCircuit 2 2) [0..<2]
     = (None, append_gates (QuantumCircuit 2 2) (diffuser_gates 2))
   \<and> run (diffuser_gates 2) (\<lambda>s. 1) [False, False] = - 1
   \<and> 2 * mean 2 (\<lambda>s. 1) - (\<lambda>s. 1) [False, False] = (1::complex)
   \<and> fst (diffuser (QuantumCircuit 0 0) [0..<0]) = Some IndexError"
proof -
  have "(0::nat) < 2" and l: "length [False, False] = 2" by simp_all
  then have "run (diffuser_gates 2) (\<lambda>s. 1) [False, False] = 1 - 2 * mean 2 (\<lambda>s. 1)"
    by (rule diffuser_action)
  then show ?thesis
    using diffuser_register [of 2 "QuantumCircuit 2 2"]
    by (simp add: mean_2_const diffuser_empty_register)
qed

text \<open>
  Claim C5. For every register size \<open>N\<close> and every circuit, if \<open>gs\<close> is the gate sequence the
  diffuser builder appends, then applying \<open>gs\<close> twice in succession to any amplitude
  vector returns the original amplitude at every basis state of the register.
\<close>

theorem diffuser_twice_identity:
  assumes "snd (diffuser c [0..<N]) = append_gates c gs" "length s = N"
  shows "run (gs @ gs) a s = a s"
proof (cases "N = 0")
  case True
  then have "snd (diffuser c [0..<N]) = append_gates c []"
    by (simp add: diffuser_empty_register append_gates_Nil)
  then have "gs = []" using assms(1) by (simp add: append_gates_inject)
  then show ?thesis by (simp add: run_Nil)
next
  case False
  then have N: "0 < N" by simp
  then have "snd (diffuser c [0..<N]) = append_gates c (diffuser_gates N)"
    by (simp add: diffuser_register)
  then have "gs = diffuser_gates N" using assms(1) by (simp add: append_gates_inject)
  then show ?thesis using diffuser_gates_twice [OF N assms(2)] by simp
qed

text \<open>Claim C5 on two positions, on the amplitude vector of one basis state.\<close>

theorem diffuser_twice_identity_witness:
  "run (diffuser_gates 2 @ diffuser_gates 2) (\<lambda>s. if s = [True, False] then 1 else 0) [True, False] = 1
   \<and> run (diffuser_gates 2 @ diffuser_gates 2) (\<lambda>s. if s = [True, False] then 1 else 0) [False, False] = 0"
proof -
  have d: "snd (diffuser (QuantumCircuit 2 2) [0..<2]) = append_gates (QuantumCircuit 2 2) (diffuser_gates 2)"
    by (simp add: diffuser_register)
  have l: "length [True, False] = 2" "length [False, False] = 2" by simp_all
  show ?thesis
    using diffuser_twice_identity [OF d l(1), of "\<lambda>s. if s = [True, False] then 1 else 0"]
      diffuser_twice_identity [OF d l(2), of "\<lambda>s. if s = [True, False] then 1 else 0"]
    by simp
qed

end
